theory Spec2Isabelle
  imports Main "HOL-Library.Word" "HOL-Library.Product_Lexorder" "HOL-Library.Multiset"
begin

unbundle bit_operations_syntax

chapter \<open>The program\<close>

section \<open>The case-table generator\<close>

subsection \<open>Constant tables\<close>

text \<open>
  The array bounds of the header (the number of edges, of tetrahedra and of cube cases).
  The initialisers of \<open>edgeIndices\<close> and \<open>tetrahedronIndices\<close> have 19 and 6 rows; a cube
  case is an 8-bit mask.
\<close>

definition NUM_EDGES :: nat where
  "NUM_EDGES = 19"

definition NUM_TETRAHEDRA :: nat where
  "NUM_TETRAHEDRA = 6"

definition NUM_CUBES :: nat where
  "NUM_CUBES = 256"

definition edgeIndices :: "(nat \<times> nat) list" where
  "edgeIndices =
     [(0, 1), (0, 2), (0, 3), (1, 3), (2, 3), (0, 4), (0, 5), (1, 5), (4, 5),
      (0, 6), (2, 6), (4, 6), (0, 7), (1, 7), (2, 7), (3, 7), (4, 7), (5, 7), (6, 7)]"

definition tetrahedronIndices :: "nat list list" where
  "tetrahedronIndices =
     [[0, 7, 1, 3], [0, 7, 3, 2], [0, 7, 2, 6], [0, 7, 6, 4], [0, 7, 4, 5], [0, 7, 5, 1]]"

subsection \<open>Edge lookup\<close>

text \<open>
  \<open>findEdgeByVertexIds\<close> orders its two arguments and scans \<open>edgeIndices\<close> from the front.
  Falling out of the loop is \<open>assert(false)\<close> in the source: the result \<open>None\<close>.
\<close>

fun findEdge_loop :: "(nat \<times> nat) list \<Rightarrow> nat \<Rightarrow> nat \<Rightarrow> nat \<Rightarrow> nat option" where
  "findEdge_loop [] i v0 v1 = None"
| "findEdge_loop (e # es) i v0 v1 =
     (if fst e = v0 \<and> snd e = v1 then Some i else findEdge_loop es (Suc i) v0 v1)"

definition findEdgeByVertexIds :: "nat \<Rightarrow> nat \<Rightarrow> nat option" where
  "findEdgeByVertexIds v0 v1 =
     (if v0 > v1 then findEdge_loop edgeIndices 0 v1 v0
      else findEdge_loop edgeIndices 0 v0 v1)"

subsection \<open>Permutation parity\<close>

text \<open>The number of inversions modulo 2, by the two nested loops of the source.\<close>

fun parity_inner :: "'a::linorder \<Rightarrow> 'a list \<Rightarrow> nat \<Rightarrow> nat" where
  "parity_inner x [] parity = parity"
| "parity_inner x (y # ys) parity =
     parity_inner x ys (if x > y then parity XOR 1 else parity)"

fun parity_outer :: "'a::linorder list \<Rightarrow> nat \<Rightarrow> nat" where
  "parity_outer [] parity = parity"
| "parity_outer (x # xs) parity = parity_outer xs (parity_inner x xs parity)"

definition permutationParity :: "'a::linorder list \<Rightarrow> nat" where
  "permutationParity xs = parity_outer xs 0"

subsection \<open>The standard library's next permutation\<close>

text \<open>
  \<open>std::next_permutation\<close>: scan from the back for the first ascent \<open>p < s\<close>, exchange
  \<open>p\<close> with the last element of the tail that is greater than \<open>p\<close>, reverse the tail and
  return true; with no ascent, reverse the whole range and return false.
  \<open>np_scan\<close> walks the reversed prefix; \<open>np_swap\<close> works on the reversed tail.
\<close>

fun np_swap :: "'a::linorder \<Rightarrow> 'a list \<Rightarrow> 'a \<times> 'a list" where
  "np_swap p [] = (p, [])"
| "np_swap p (x # xs) =
     (if p < x then (x, p # xs)
      else (case np_swap p xs of (e, r) \<Rightarrow> (e, x # r)))"

fun np_scan :: "'a::linorder list \<Rightarrow> 'a list \<Rightarrow> bool \<times> 'a list" where
  "np_scan [] suf = (False, rev suf)"
| "np_scan (p # rs) [] = np_scan rs [p]"
| "np_scan (p # rs) (s # suf) =
     (if p < s then (case np_swap p (rev (s # suf)) of (e, r) \<Rightarrow> (True, rev rs @ e # r))
      else np_scan rs (p # s # suf))"

definition next_permutation :: "'a::linorder list \<Rightarrow> bool \<times> 'a list" where
  "next_permutation xs = np_scan (rev xs) []"

subsection \<open>One tetrahedron of one cube case\<close>

type_synonym tvtx = "nat \<times> bool"

text \<open>The copy loop: each vertex of tetrahedron \<open>j\<close> with its outside flag in case \<open>i\<close>.\<close>

definition classify :: "nat \<Rightarrow> nat \<Rightarrow> tvtx list" where
  "classify i j = map (\<lambda>v. (v, bit i v)) (tetrahedronIndices ! j)"

fun mask_loop :: "tvtx list \<Rightarrow> nat \<Rightarrow> nat \<Rightarrow> nat" where
  "mask_loop [] k m = m"
| "mask_loop (t # ts) k m = mask_loop ts (Suc k) (m OR push_bit k (of_bool (snd t)))"

definition outside_mask :: "tvtx list \<Rightarrow> nat" where
  "outside_mask tvtxs = mask_loop tvtxs 0 0"

definition one_triangle :: "tvtx list \<Rightarrow> nat list option" where
  "one_triangle tvtxs =
     (let t0 = fst (tvtxs ! 0); t1 = fst (tvtxs ! 1); t2 = fst (tvtxs ! 2); t3 = fst (tvtxs ! 3)
      in those [findEdgeByVertexIds t0 t1, findEdgeByVertexIds t0 t3, findEdgeByVertexIds t0 t2])"

definition two_triangles :: "tvtx list \<Rightarrow> nat list option" where
  "two_triangles tvtxs =
     (let t0 = fst (tvtxs ! 0); t1 = fst (tvtxs ! 1); t2 = fst (tvtxs ! 2); t3 = fst (tvtxs ! 3)
      in those [findEdgeByVertexIds t0 t2, findEdgeByVertexIds t1 t2, findEdgeByVertexIds t1 t3,
                findEdgeByVertexIds t1 t3, findEdgeByVertexIds t0 t3, findEdgeByVertexIds t0 t2])"

text \<open>
  The measure of the permutation loop: how many arrangements of the same elements come
  later in lexicographic order. It only serves the termination proof.
\<close>

definition perm_rank :: "'a::linorder list \<Rightarrow> nat" where
  "perm_rank xs = card {zs. mset zs = mset xs \<and> (xs, zs) \<in> lexord {(a, b). a < b}}"

lemma np_swap_greater:
  "\<exists>z\<in>set zs. p < z \<Longrightarrow> np_swap p zs = (e, r) \<Longrightarrow> p < e \<and> mset (e # r) = mset (p # zs)"
  by (induction zs arbitrary: e r) (auto split: if_splits prod.splits)

lemma np_scan_later:
  "np_scan rs suf = (True, ys) \<Longrightarrow>
     mset ys = mset rs + mset suf \<and> (rev rs @ suf, ys) \<in> lexord {(a, b). a < b}"
proof (induction rs suf arbitrary: ys rule: np_scan.induct)
  case (1 suf)
  then show ?case by simp
next
  case (2 p rs)
  then show ?case by simp
next
  case (3 p rs s suf)
  show ?case
  proof (cases "p < s")
    case True
    obtain e r where sw: "np_swap p (rev (s # suf)) = (e, r)"
      by (cases "np_swap p (rev (s # suf))")
    have "\<exists>z\<in>set (rev (s # suf)). p < z"
      using True by auto
    from np_swap_greater [OF this sw]
    have gt: "p < e" and ms: "mset (e # r) = mset (p # rev (s # suf))"
      by blast+
    have ys: "ys = rev rs @ e # r"
      using "3.prems" True sw by simp
    have "(p # s # suf, e # r) \<in> lexord {(a, b). a < b}"
      using gt by simp
    then have "(rev rs @ p # s # suf, rev rs @ e # r) \<in> lexord {(a, b). a < b}"
      by (rule lexord_append_leftI)
    moreover have "mset ys = mset (p # rs) + mset (s # suf)"
      using ms ys by simp
    ultimately show ?thesis
      using ys by simp
  next
    case False
    with "3.IH" "3.prems" show ?thesis by simp
  qed
qed

lemma finite_arrangements: "finite {zs. mset zs = mset xs \<and> P zs}"
proof -
  have "{zs. mset zs = mset xs \<and> P zs} \<subseteq> {zs. set zs \<subseteq> set xs \<and> length zs = length xs}"
    by (auto dest: mset_eq_setD mset_eq_length)
  moreover have "finite {zs. set zs \<subseteq> set xs \<and> length zs = length xs}"
    by (rule finite_lists_length_eq) simp
  ultimately show ?thesis
    by (rule finite_subset)
qed

lemma next_permutation_rank:
  assumes "next_permutation xs = (True, ys)"
  shows "perm_rank ys < perm_rank xs"
proof -
  let ?R = "lexord {(a::'a, b). a < b}"
  have tr: "trans {(a::'a, b). a < b}"
    by (auto simp: trans_def)
  from assms np_scan_later [of "rev xs" "[]" ys]
  have ms: "mset ys = mset xs" and lt: "(xs, ys) \<in> ?R"
    by (simp_all add: next_permutation_def)
  have irr: "(ys, ys) \<notin> ?R"
    by (rule lexord_irreflexive) simp
  have "{zs. mset zs = mset ys \<and> (ys, zs) \<in> ?R} \<subset> {zs. mset zs = mset xs \<and> (xs, zs) \<in> ?R}"
  proof
    show "{zs. mset zs = mset ys \<and> (ys, zs) \<in> ?R} \<subseteq> {zs. mset zs = mset xs \<and> (xs, zs) \<in> ?R}"
      using ms lt tr by (auto intro: lexord_trans)
    show "{zs. mset zs = mset ys \<and> (ys, zs) \<in> ?R} \<noteq> {zs. mset zs = mset xs \<and> (xs, zs) \<in> ?R}"
      using ms lt irr by blast
  qed
  then show ?thesis
    unfolding perm_rank_def by (intro psubset_card_mono finite_arrangements)
qed

text \<open>
  The \<open>do ... while (next_permutation)\<close> loop. A rotation (parity equal to the base
  parity) in canonical position appends its triangles and breaks; the loop also ends when
  \<open>next_permutation\<close> returns false. The result holds whether the loop was left by
  \<open>break\<close>, the array \<open>tvtxs\<close> and the vector \<open>triangles\<close> at that moment; \<open>None\<close> is a failed
  edge lookup.
\<close>

function rotation_search ::
  "nat \<Rightarrow> tvtx list \<Rightarrow> nat list \<Rightarrow> (bool \<times> tvtx list \<times> nat list) option" where
  "rotation_search baseParity tvtxs triangles =
     (if permutationParity tvtxs = baseParity \<and> outside_mask tvtxs = 0 then
        Some (True, tvtxs, triangles)
      else if permutationParity tvtxs = baseParity \<and> outside_mask tvtxs = 1 then
        map_option (\<lambda>es. (True, tvtxs, triangles @ es)) (one_triangle tvtxs)
      else if permutationParity tvtxs = baseParity \<and> outside_mask tvtxs = 3 then
        map_option (\<lambda>es. (True, tvtxs, triangles @ es)) (two_triangles tvtxs)
      else (case next_permutation tvtxs of
              (more, tvtxs') \<Rightarrow>
                if more then rotation_search baseParity tvtxs' triangles
                else Some (False, tvtxs', triangles)))"
  by pat_completeness auto
termination
  by (relation "measure (\<lambda>(b, tv, tr). perm_rank tv)") (auto dest: next_permutation_rank [OF sym])

declare rotation_search.simps [simp del]

text \<open>
  The body of the loop over the tetrahedra: classify, take the base parity, flip when more
  than two vertices are outside, sort, search.
\<close>

definition flip_outside :: "tvtx list \<Rightarrow> tvtx list" where
  "flip_outside tvtxs = map (\<lambda>t. (fst t, \<not> snd t)) tvtxs"

definition count_outside :: "tvtx list \<Rightarrow> nat" where
  "count_outside tvtxs = length (filter snd tvtxs)"

definition search_parity :: "tvtx list \<Rightarrow> nat" where
  "search_parity tvtxs =
     (if count_outside tvtxs > 2 then permutationParity tvtxs XOR 1 else permutationParity tvtxs)"

definition process_tetrahedron ::
  "tvtx list \<Rightarrow> nat list \<Rightarrow> (bool \<times> tvtx list \<times> nat list) option" where
  "process_tetrahedron tvtxs triangles =
     rotation_search (search_parity tvtxs)
       (sort (if count_outside tvtxs > 2 then flip_outside tvtxs else tvtxs)) triangles"

definition tetrahedron_triangles ::
  "nat \<Rightarrow> nat \<Rightarrow> nat list \<Rightarrow> (bool \<times> tvtx list \<times> nat list) option" where
  "tetrahedron_triangles i j triangles = process_tetrahedron (classify i j) triangles"

fun tetrahedra_loop :: "nat \<Rightarrow> nat list \<Rightarrow> nat list \<Rightarrow> nat list option" where
  "tetrahedra_loop i [] triangles = Some triangles"
| "tetrahedra_loop i (j # js) triangles =
     (case tetrahedron_triangles i j triangles of
        None \<Rightarrow> None
      | Some (_, _, triangles') \<Rightarrow> tetrahedra_loop i js triangles')"

definition cube_triangles :: "nat \<Rightarrow> nat list option" where
  "cube_triangles i = tetrahedra_loop i [0..<NUM_TETRAHEDRA] []"

subsection \<open>The tables\<close>

text \<open>
  The host vectors of \<open>makeTables\<close>. \<open>hVertexTable\<close> and \<open>hIndexTable\<close> hold bytes,
  \<open>hKeyTable\<close> three unsigned integers per entry, \<open>hCountTable\<close> pairs of bytes and
  \<open>hStartTable\<close> pairs of 16-bit values; \<open>uchar\<close> and \<open>ushort\<close> are the conversions that
  storing into those types performs.
\<close>

definition uchar :: "nat \<Rightarrow> nat" where
  "uchar x = x mod 256"

definition ushort :: "nat \<Rightarrow> nat" where
  "ushort x = x mod 65536"

record tables =
  hVertexTable :: "nat list"
  hIndexTable :: "nat list"
  hKeyTable :: "nat list list"
  hCountTable :: "(nat \<times> nat) list"
  hStartTable :: "(nat \<times> nat) list"

definition edge_key :: "nat \<Rightarrow> nat list" where
  "edge_key j =
     map (\<lambda>axis. (drop_bit axis (fst (edgeIndices ! j)) AND 1)
                 + (drop_bit axis (snd (edgeIndices ! j)) AND 1)) [0..<3]"

text \<open>
  The loop over the edges: an edge that occurs in \<open>triangles\<close> gets the next compact index,
  and its number and key are appended. \<open>edgeCompact\<close> is a partial map: the array of the
  source is not initialised.
\<close>

fun assign_edges ::
  "nat list \<Rightarrow> nat list \<Rightarrow> (nat \<rightharpoonup> nat) \<Rightarrow> nat \<Rightarrow> tables \<Rightarrow> (nat \<rightharpoonup> nat) \<times> nat \<times> tables" where
  "assign_edges triangles [] edgeCompact pool t = (edgeCompact, pool, t)"
| "assign_edges triangles (j # js) edgeCompact pool t =
     (if count_list triangles j \<noteq> 0 then
        assign_edges triangles js (edgeCompact(j \<mapsto> pool)) (pool + 1)
          (t\<lparr>hVertexTable := hVertexTable t @ [uchar j],
             hKeyTable := hKeyTable t @ [edge_key j]\<rparr>)
      else assign_edges triangles js edgeCompact pool t)"

text \<open>
  The loop that rewrites the triangles: each entry is replaced by the compact index of its
  edge. Reading an entry of \<open>edgeCompact\<close> that was never written is the result \<open>None\<close>.
\<close>

fun index_loop :: "nat list \<Rightarrow> (nat \<rightharpoonup> nat) \<Rightarrow> tables \<Rightarrow> tables option" where
  "index_loop [] edgeCompact t = Some t"
| "index_loop (e # es) edgeCompact t =
     (case edgeCompact e of
        None \<Rightarrow> None
      | Some c \<Rightarrow> index_loop es edgeCompact (t\<lparr>hIndexTable := hIndexTable t @ [uchar c]\<rparr>))"

definition emit_case :: "nat \<Rightarrow> nat list \<Rightarrow> tables \<Rightarrow> tables option" where
  "emit_case i triangles t =
     (let s0 = ushort (length (hVertexTable t));
          s1 = ushort (length (hIndexTable t));
          t1 = t\<lparr>hStartTable := (hStartTable t)[i := (s0, s1)]\<rparr>
      in case assign_edges triangles [0..<NUM_EDGES] Map.empty 0 t1 of
           (edgeCompact, pool, t2) \<Rightarrow>
             (case index_loop triangles edgeCompact t2 of
                None \<Rightarrow> None
              | Some t3 \<Rightarrow>
                  Some (t3\<lparr>hCountTable := (hCountTable t3)
                         [i := (uchar (length (hVertexTable t3) - s0),
                                uchar (length (hIndexTable t3) - s1))]\<rparr>)))"

fun cases_loop :: "nat list \<Rightarrow> tables \<Rightarrow> tables option" where
  "cases_loop [] t = Some t"
| "cases_loop (i # is) t =
     (case cube_triangles i of
        None \<Rightarrow> None
      | Some triangles \<Rightarrow>
          (case emit_case i triangles t of
             None \<Rightarrow> None
           | Some t' \<Rightarrow> cases_loop is t'))"

definition initial_tables :: tables where
  "initial_tables =
     \<lparr>hVertexTable = [], hIndexTable = [], hKeyTable = [],
      hCountTable = replicate NUM_CUBES (0, 0),
      hStartTable = replicate (NUM_CUBES + 1) (0, 0)\<rparr>"

text \<open>
  After the loop: the sentinel row of \<open>hStartTable\<close>, the shift of every index start by the
  length of the vertex part, and the concatenation of the two byte vectors. The result is
  what the four device buffers are created from: \<open>hCountTable\<close>, \<open>hStartTable\<close>,
  \<open>hVertexTable\<close> (the data table) and \<open>hKeyTable\<close>.
\<close>

definition finish_tables :: "tables \<Rightarrow> tables" where
  "finish_tables t =
     (let nv = length (hVertexTable t);
          starts = (hStartTable t)[NUM_CUBES := (ushort nv, ushort (length (hIndexTable t)))];
          shifted = map (\<lambda>s. (fst s, ushort (snd s + nv))) starts
      in t\<lparr>hStartTable := shifted, hVertexTable := hVertexTable t @ hIndexTable t\<rparr>)"

definition makeTables :: "tables option" where
  "makeTables = map_option finish_tables (cases_loop [0..<NUM_CUBES] initial_tables)"

section \<open>The layer driver\<close>

text \<open>
  The host side of \<open>generate\<close> and \<open>shipOut\<close>. The kernels, the scans and the sort run on
  the device; what the host reads back from them for a layer (the number of compacted
  cells and the totals of the element counts) is an input of the model, and the calls of
  the input and output functors and of the element kernel are recorded as events.

  Modelled from the spec: \<open>MLSGPU_ASSERT(cond, exception)\<close>, a macro of a header that is
  not among the sources, throws the named exception when the condition is false
  (\<open>std::invalid_argument\<close> is \<open>InvalidArgument\<close>, \<open>std::length_error\<close> is \<open>LengthError\<close>).
  A failing \<open>assert\<close> ends the run with \<open>AssertionFailed\<close>.
\<close>

datatype error = InvalidArgument | LengthError | AssertionFailed

type_synonym cl_uint = "32 word"
type_synonym cl_ulong = "64 word"

text \<open>
  The fields of the engine that \<open>generate\<close> reads, and what the device reports for the layer
  between slices \<open>z - 1\<close> and \<open>z\<close>: the return values of \<open>generateCells\<close> and
  \<open>countElements\<close>.
\<close>

record marching =
  maxWidth :: nat
  maxHeight :: nat
  vertexSpace :: nat
  indexSpace :: nat

record layer =
  compacted :: nat
  counts :: "cl_uint \<times> cl_uint"

text \<open>
  What \<open>shipOut\<close> computes on the host from its arguments: the two kernel arguments
  \<open>minExternalKey\<close> and \<open>keyOffsetL\<close> and the triangle count of the output mesh. The vertex
  counts of the mesh are read back from the device and are not part of the model.
  \<open>KEY_AXIS_BITS\<close> is a constant of the header and a parameter here.
\<close>

record mesh =
  sizes :: "cl_uint \<times> cl_uint"
  zMax :: cl_uint
  minExternalKey :: cl_ulong
  keyOffsetL :: cl_ulong
  numTriangles :: cl_uint

datatype event =
  Input nat
| Generate cl_uint "cl_uint \<times> cl_uint" "cl_uint \<times> cl_uint \<times> cl_uint"
| Output mesh

definition shipOut :: "nat \<Rightarrow> cl_uint \<times> cl_uint \<times> cl_uint \<Rightarrow> cl_uint \<times> cl_uint \<Rightarrow> cl_uint \<Rightarrow> mesh" where
  "shipOut KEY_AXIS_BITS keyOffset sz zm =
     \<lparr>sizes = sz,
      zMax = zm,
      minExternalKey = push_bit (2 * KEY_AXIS_BITS + 1) (ucast zm),
      keyOffsetL =
        push_bit (2 * KEY_AXIS_BITS + 1) (ucast (snd (snd keyOffset)))
        OR push_bit (KEY_AXIS_BITS + 1) (ucast (fst (snd keyOffset)))
        OR push_bit 1 (ucast (fst keyOffset)),
      numTriangles = snd sz div 3\<rparr>"

text \<open>The local variables of \<open>generate\<close> that change in the loop, and the events so far.\<close>

record gen_state =
  offsets :: "cl_uint \<times> cl_uint"
  top :: "cl_uint \<times> cl_uint \<times> cl_uint"
  events :: "event list"
  shipOuts :: nat

definition generate_elements :: "nat \<Rightarrow> cl_uint \<times> cl_uint \<Rightarrow> gen_state \<Rightarrow> gen_state" where
  "generate_elements z c st =
     st\<lparr>events := events st @ [Generate (of_nat (z - 1)) (offsets st) (top st)],
        offsets := (fst (offsets st) + fst c, snd (offsets st) + snd c)\<rparr>"

definition ship_before_layer ::
  "nat \<Rightarrow> cl_uint \<times> cl_uint \<times> cl_uint \<Rightarrow> nat \<Rightarrow> gen_state \<Rightarrow> gen_state" where
  "ship_before_layer KEY_AXIS_BITS keyOffset z st =
     st\<lparr>events := events st @ [Output (shipOut KEY_AXIS_BITS keyOffset (offsets st) (of_nat (z - 1)))],
        shipOuts := shipOuts st + 1,
        offsets := (0, 0),
        top := (fst (top st), fst (snd (top st)), 2 * of_nat (z - 1))\<rparr>"

text \<open>
  One iteration of the loop over \<open>z\<close>. The sums \<open>offsets + counts\<close> are sums of 32-bit
  unsigned integers; they are compared with \<open>vertexSpace\<close> and \<open>indexSpace\<close>, which are sizes.
\<close>

definition layer_step ::
  "nat \<Rightarrow> marching \<Rightarrow> cl_uint \<times> cl_uint \<times> cl_uint \<Rightarrow> (nat \<Rightarrow> layer) \<Rightarrow> nat \<Rightarrow> gen_state
     \<Rightarrow> error + gen_state" where
  "layer_step KEY_AXIS_BITS m keyOffset layers z st =
     (let st1 = st\<lparr>events := events st @ [Input z]\<rparr>;
          c = counts (layers z)
      in if 0 < compacted (layers z) then
           if vertexSpace m < unat (fst (offsets st1) + fst c)
              \<or> indexSpace m < unat (snd (offsets st1) + snd c)
           then
             if vertexSpace m < unat (fst c) \<or> indexSpace m < unat (snd c)
             then Inl AssertionFailed
             else Inr (generate_elements z c (ship_before_layer KEY_AXIS_BITS keyOffset z st1))
           else Inr (generate_elements z c st1)
         else Inr st1)"

function generate_loop ::
  "nat \<Rightarrow> marching \<Rightarrow> cl_uint \<times> cl_uint \<times> cl_uint \<Rightarrow> (nat \<Rightarrow> layer) \<Rightarrow> nat \<Rightarrow> nat \<Rightarrow> gen_state
     \<Rightarrow> error + gen_state" where
  "generate_loop KEY_AXIS_BITS m keyOffset layers depth z st =
     (if z < depth then
        (case layer_step KEY_AXIS_BITS m keyOffset layers z st of
           Inl e \<Rightarrow> Inl e
         | Inr st' \<Rightarrow> generate_loop KEY_AXIS_BITS m keyOffset layers depth (z + 1) st')
      else Inr st)"
  by pat_completeness auto
termination
  by (relation "measure (\<lambda>(b, m, k, l, depth, z, st). depth - z)") auto

declare generate_loop.simps [simp del]

definition final_shipOut ::
  "nat \<Rightarrow> cl_uint \<times> cl_uint \<times> cl_uint \<Rightarrow> nat \<Rightarrow> gen_state \<Rightarrow> gen_state" where
  "final_shipOut KEY_AXIS_BITS keyOffset depth st =
     (if 0 < fst (offsets st) then
        st\<lparr>events := events st
                @ [Output (shipOut KEY_AXIS_BITS keyOffset (offsets st) (of_nat (depth - 1)))],
           shipOuts := shipOuts st + 1\<rparr>
      else st)"

definition initial_state :: "nat \<Rightarrow> nat \<Rightarrow> gen_state" where
  "initial_state width height =
     \<lparr>offsets = (0, 0),
      top = (2 * of_nat (width - 1), 2 * of_nat (height - 1), 0),
      events = [Input 0],
      shipOuts = 0\<rparr>"

text \<open>
  \<open>generate\<close>: the three checks of the dimensions, slice 0, the loop from \<open>z = 1\<close>, and the
  ship-out after the loop.
\<close>

definition generate ::
  "nat \<Rightarrow> marching \<Rightarrow> (nat \<Rightarrow> layer) \<Rightarrow> nat \<times> nat \<times> nat \<Rightarrow> cl_uint \<times> cl_uint \<times> cl_uint
     \<Rightarrow> error + gen_state" where
  "generate KEY_AXIS_BITS m layers sz keyOffset =
     (let width = fst sz; height = fst (snd sz); depth = snd (snd sz)
      in if \<not> (1 \<le> width \<and> width \<le> maxWidth m) then Inl LengthError
         else if \<not> (1 \<le> height \<and> height \<le> maxHeight m) then Inl LengthError
         else if \<not> (1 \<le> depth) then Inl LengthError
         else (case generate_loop KEY_AXIS_BITS m keyOffset layers depth 1 (initial_state width height) of
                 Inl e \<Rightarrow> Inl e
               | Inr st \<Rightarrow> Inr (final_shipOut KEY_AXIS_BITS keyOffset depth st)))"

section \<open>The constructor and the resource accounting\<close>

text \<open>
  Sizes are 64-bit unsigned integers. \<open>MAX_DIMENSION\<close>, \<open>MAX_CELL_VERTICES\<close> and
  \<open>MAX_CELL_INDICES\<close> are constants of the header, which is not among the sources: they are
  parameters of the model.
\<close>

type_synonym size_t = "64 word"

record constants =
  MAX_DIMENSION :: size_t
  MAX_CELL_VERTICES :: nat
  MAX_CELL_INDICES :: nat

text \<open>
  A device allocation: an image (width, height, bytes per pixel) or a buffer (bytes). The
  constructor creates them; \<open>resourceUsage\<close> announces them by \<open>addImage\<close> and
  \<open>addBuffer\<close>, whose bodies are not among the sources, so the model of \<open>resourceUsage\<close>
  returns the list of these calls.
\<close>

datatype allocation = Image2D size_t size_t nat | Buffer size_t

definition getMaxVertices :: "constants \<Rightarrow> size_t \<Rightarrow> size_t \<Rightarrow> 64 word" where
  "getMaxVertices k maxW maxH = (maxW - 1) * (maxH - 1) * of_nat (MAX_CELL_VERTICES k)"

definition getMaxTriangles :: "constants \<Rightarrow> size_t \<Rightarrow> size_t \<Rightarrow> 64 word" where
  "getMaxTriangles k maxW maxH = (maxW - 1) * (maxH - 1) * of_nat (MAX_CELL_INDICES k div 3)"

text \<open>
  The two slice images and the thirteen buffers, in the order in which both functions go
  through them: cells, occupied, viCount, vertexUnique, indexRemap, unweldedVertices,
  unweldedVertexKeys, weldedVertices, weldedVertexKeys, indices, firstExternal,
  tmpVertexKeys, tmpVertices. The factors are the sizes of the element types: 4 bytes for
  \<open>cl_uint\<close> and \<open>cl_float\<close>, 8 for \<open>cl_uint2\<close> and \<open>cl_ulong\<close>, 16 for \<open>cl_float4\<close>.
\<close>

definition engine_buffers :: "size_t \<Rightarrow> size_t \<Rightarrow> size_t \<Rightarrow> size_t \<Rightarrow> size_t \<Rightarrow> allocation list" where
  "engine_buffers maxW maxH sliceCells vSpace iSpace =
     [Image2D maxW maxH 4,
      Image2D maxW maxH 4,
      Buffer (sliceCells * 8),
      Buffer ((sliceCells + 1) * 4),
      Buffer ((sliceCells + 1) * 8),
      Buffer ((vSpace + 1) * 4),
      Buffer (vSpace * 4),
      Buffer (vSpace * 16),
      Buffer ((vSpace + 1) * 8),
      Buffer (vSpace * 3 * 4),
      Buffer (vSpace * 8),
      Buffer (iSpace * 4),
      Buffer 4,
      Buffer (vSpace * 8),
      Buffer (vSpace * 16)]"

definition resourceUsage :: "constants \<Rightarrow> size_t \<Rightarrow> size_t \<Rightarrow> error + allocation list" where
  "resourceUsage k maxW maxH =
     (if \<not> maxW \<le> MAX_DIMENSION k then Inl InvalidArgument
      else if \<not> maxH \<le> MAX_DIMENSION k then Inl InvalidArgument
      else Inr (engine_buffers maxW maxH ((maxW - 1) * (maxH - 1))
                  (getMaxVertices k maxW maxH) (getMaxTriangles k maxW maxH * 3)))"

text \<open>
  The four buffers that \<open>makeTables\<close> creates from the host vectors: two bytes per count
  row, four per start row, one per data entry and sixteen per key row.
\<close>

definition table_buffers :: "tables \<Rightarrow> allocation list" where
  "table_buffers t =
     [Buffer (of_nat (length (hCountTable t)) * 2),
      Buffer (of_nat (length (hStartTable t)) * 4),
      Buffer (of_nat (length (hVertexTable t)) * 1),
      Buffer (of_nat (length (hKeyTable t)) * 16)]"

text \<open>
  The constructor: the two checks, \<open>makeTables\<close>, the images and the buffers. Its result is
  the engine and the allocations in the order in which they are made.
\<close>

definition Marching :: "constants \<Rightarrow> size_t \<Rightarrow> size_t \<Rightarrow> error + marching \<times> allocation list" where
  "Marching k maxW maxH =
     (if \<not> (2 \<le> maxW \<and> maxW \<le> MAX_DIMENSION k) then Inl InvalidArgument
      else if \<not> (2 \<le> maxH \<and> maxH \<le> MAX_DIMENSION k) then Inl InvalidArgument
      else (case makeTables of
              None \<Rightarrow> Inl AssertionFailed
            | Some t \<Rightarrow>
                (let sliceCells = (maxW - 1) * (maxH - 1);
                     vSpace = sliceCells * of_nat (MAX_CELL_VERTICES k);
                     iSpace = sliceCells * of_nat (MAX_CELL_INDICES k)
                 in Inr (\<lparr>maxWidth = unat maxW, maxHeight = unat maxH,
                           vertexSpace = unat vSpace, indexSpace = unat iSpace\<rparr>,
                         table_buffers t @ engine_buffers maxW maxH sliceCells vSpace iSpace))))"

chapter \<open>Verification\<close>

section \<open>Every tetrahedron is rotated into a canonical position\<close>

text \<open>
  The search only looks at the four flags of the tetrahedron, so each of the six
  tetrahedra has sixteen configurations. \<open>canonical_outcome\<close> says what the search does on
  one of them; it is evaluated on all ninety-six.
\<close>

definition configurations :: "tvtx list list" where
  "configurations =
     concat (map (\<lambda>vs. map (zip vs) (List.n_lists 4 [False, True])) tetrahedronIndices)"

definition canonical_outcome :: "tvtx list \<Rightarrow> bool" where
  "canonical_outcome c =
     (case process_tetrahedron c [] of
        None \<Rightarrow> False
      | Some (brk, tv, es) \<Rightarrow>
          brk \<and> permutationParity tv = search_parity c \<and> sort (map fst tv) = sort (map fst c) \<and>
          (if count_outside c = 0 \<or> count_outside c = 4 then outside_mask tv = 0 \<and> es = []
           else if count_outside c = 1 \<or> count_outside c = 3
             then outside_mask tv = 1 \<and> one_triangle tv = Some es
           else outside_mask tv = 3 \<and> two_triangles tv = Some es))"

lemma all_canonical: "list_all canonical_outcome configurations"
  by code_simp

lemma classify_configuration:
  assumes "j < NUM_TETRAHEDRA"
  shows "classify i j \<in> set configurations"
proof -
  let ?vs = "tetrahedronIndices ! j"
  have "j < length tetrahedronIndices"
    using assms by (simp add: NUM_TETRAHEDRA_def tetrahedronIndices_def)
  then have in_t: "?vs \<in> set tetrahedronIndices"
    by (rule nth_mem)
  then have len: "length ?vs = 4"
    by (auto simp: tetrahedronIndices_def)
  have "classify i j = zip ?vs (map (bit i) ?vs)"
    by (simp add: classify_def zip_map2 zip_same_conv_map)
  moreover have "map (bit i) ?vs \<in> set (List.n_lists 4 [False, True])"
    using len by (auto simp: set_n_lists)
  ultimately show ?thesis
    using in_t unfolding configurations_def by auto
qed

lemma rotation_search_append:
  "rotation_search bp tv tr =
     map_option (\<lambda>r. (fst r, fst (snd r), tr @ snd (snd r))) (rotation_search bp tv [])"
proof (induction bp tv tr rule: rotation_search.induct)
  case (1 bp tv tr)
  obtain more tv' where np: "next_permutation tv = (more, tv')"
    by (cases "next_permutation tv")
  show ?case
    using "1.IH" [OF _ _ _ np [symmetric]] np
    by (subst rotation_search.simps, subst (2) rotation_search.simps)
       (auto simp: option.map_comp comp_def)
qed

lemma process_tetrahedron_append:
  "process_tetrahedron c tr =
     map_option (\<lambda>r. (fst r, fst (snd r), tr @ snd (snd r))) (process_tetrahedron c [])"
  unfolding process_tetrahedron_def by (rule rotation_search_append)

lemma tetrahedron_outcome:
  assumes "j < NUM_TETRAHEDRA"
  shows "canonical_outcome (classify i j)"
  using all_canonical classify_configuration [OF assms] by (simp add: list_all_iff)



section \<open>What the table generator builds\<close>

subsection \<open>Edge lookups and the triangles of a cube case\<close>

lemma findEdge_loop_Some:
  "findEdge_loop es i a b = Some k \<Longrightarrow> i \<le> k \<and> k < i + length es \<and> es ! (k - i) = (a, b)"
proof (induction es arbitrary: i)
  case Nil
  then show ?case by simp
next
  case (Cons e es)
  show ?case
  proof (cases "fst e = a \<and> snd e = b")
    case True
    with Cons.prems show ?thesis by auto
  next
    case False
    with Cons.prems have "findEdge_loop es (Suc i) a b = Some k" by auto
    from Cons.IH [OF this] have "Suc i \<le> k" "k < Suc i + length es" "es ! (k - Suc i) = (a, b)"
      by simp_all
    then show ?thesis
      by (simp add: nth_Cons')
  qed
qed

lemma findEdgeByVertexIds_bound:
  "findEdgeByVertexIds a b = Some k \<Longrightarrow> k < NUM_EDGES"
  unfolding findEdgeByVertexIds_def
  by (auto dest!: findEdge_loop_Some simp: edgeIndices_def NUM_EDGES_def split: if_splits)

lemma those_Some_nth:
  "those xs = Some ys \<Longrightarrow> map Some ys = xs"
  by (induction xs arbitrary: ys) (auto split: option.splits)

lemma one_triangle_edges:
  assumes "one_triangle tv = Some es"
  shows "length es = 3 \<and> (\<forall>e\<in>set es. e < NUM_EDGES)"
proof -
  from assms have m: "map Some es = [findEdgeByVertexIds (fst (tv ! 0)) (fst (tv ! 1)),
                    findEdgeByVertexIds (fst (tv ! 0)) (fst (tv ! 3)),
                    findEdgeByVertexIds (fst (tv ! 0)) (fst (tv ! 2))]"
    unfolding one_triangle_def Let_def by (rule those_Some_nth)
  then have "length (map Some es) = 3" by simp
  moreover have "e < NUM_EDGES" if "e \<in> set es" for e
  proof -
    from that have "Some e \<in> set (map Some es)" by simp
    with m show ?thesis by (auto dest: findEdgeByVertexIds_bound [OF sym])
  qed
  ultimately show ?thesis by simp
qed

lemma two_triangles_edges:
  assumes "two_triangles tv = Some es"
  shows "length es = 6 \<and> (\<forall>e\<in>set es. e < NUM_EDGES)"
proof -
  from assms have m: "map Some es = [findEdgeByVertexIds (fst (tv ! 0)) (fst (tv ! 2)),
                    findEdgeByVertexIds (fst (tv ! 1)) (fst (tv ! 2)),
                    findEdgeByVertexIds (fst (tv ! 1)) (fst (tv ! 3)),
                    findEdgeByVertexIds (fst (tv ! 1)) (fst (tv ! 3)),
                    findEdgeByVertexIds (fst (tv ! 0)) (fst (tv ! 3)),
                    findEdgeByVertexIds (fst (tv ! 0)) (fst (tv ! 2))]"
    unfolding two_triangles_def Let_def by (rule those_Some_nth)
  then have "length (map Some es) = 6" by simp
  moreover have "e < NUM_EDGES" if "e \<in> set es" for e
  proof -
    from that have "Some e \<in> set (map Some es)" by simp
    with m show ?thesis by (auto dest: findEdgeByVertexIds_bound [OF sym])
  qed
  ultimately show ?thesis by simp
qed

lemma tetrahedron_appends:
  assumes "j < NUM_TETRAHEDRA"
  shows "\<exists>b tv es. tetrahedron_triangles i j tr = Some (b, tv, tr @ es)
           \<and> length es \<le> 6 \<and> 3 dvd length es \<and> (\<forall>e\<in>set es. e < NUM_EDGES)"
proof -
  let ?c = "classify i j"
  from tetrahedron_outcome [OF assms, of i]
  obtain tv es where run: "process_tetrahedron ?c [] = Some (True, tv, es)"
    and shape: "es = [] \<or> one_triangle tv = Some es \<or> two_triangles tv = Some es"
    unfolding canonical_outcome_def by (auto split: option.splits if_splits)
  have "tetrahedron_triangles i j tr = Some (True, tv, tr @ es)"
    unfolding tetrahedron_triangles_def
    by (subst process_tetrahedron_append) (simp add: run)
  moreover have "length es \<le> 6 \<and> 3 dvd length es \<and> (\<forall>e\<in>set es. e < NUM_EDGES)"
    using shape one_triangle_edges [of tv es] two_triangles_edges [of tv es] by auto
  ultimately show ?thesis by blast
qed

lemma tetrahedra_loop_appends:
  assumes "\<forall>j\<in>set js. j < NUM_TETRAHEDRA"
  shows "\<exists>es. tetrahedra_loop i js tr = Some (tr @ es)
           \<and> length es \<le> 6 * length js \<and> 3 dvd length es \<and> (\<forall>e\<in>set es. e < NUM_EDGES)"
  using assms
proof (induction js arbitrary: tr)
  case Nil
  then show ?case by simp
next
  case (Cons j js)
  then have "j < NUM_TETRAHEDRA" by simp
  from tetrahedron_appends [OF this, of i tr]
  obtain b tv es where t: "tetrahedron_triangles i j tr = Some (b, tv, tr @ es)"
    and es: "length es \<le> 6" "3 dvd length es" "\<forall>e\<in>set es. e < NUM_EDGES"
    by blast
  from Cons.IH [of "tr @ es"] Cons.prems
  obtain es' where l: "tetrahedra_loop i js (tr @ es) = Some ((tr @ es) @ es')"
    and es': "length es' \<le> 6 * length js" "3 dvd length es'" "\<forall>e\<in>set es'. e < NUM_EDGES"
    by auto
  have "tetrahedra_loop i (j # js) tr = Some (tr @ (es @ es'))"
    using t l by simp
  moreover have "length (es @ es') \<le> 6 * length (j # js)"
    using es es' by simp
  moreover have "3 dvd length (es @ es')"
    using es es' by simp
  moreover have "\<forall>e\<in>set (es @ es'). e < NUM_EDGES"
    using es es' by auto
  ultimately show ?case by blast
qed

lemma cube_triangles_total:
  "\<exists>tris. cube_triangles i = Some tris \<and> length tris \<le> 36 \<and> 3 dvd length tris
           \<and> (\<forall>e\<in>set tris. e < NUM_EDGES)"
  using tetrahedra_loop_appends [of "[0..<NUM_TETRAHEDRA]" i "[]"]
  by (auto simp: cube_triangles_def NUM_TETRAHEDRA_def)

subsection \<open>The rows of one cube case\<close>

text \<open>
  The rows that case \<open>i\<close> appends, read off the two loops of the source: the vertex list is
  the list of the edges that occur among the triangles, in ascending edge number; the
  compact index of an edge is the number of used edges below it.
\<close>

definition case_vertices :: "nat list \<Rightarrow> nat list" where
  "case_vertices triangles = filter (\<lambda>j. j \<in> set triangles) [0..<NUM_EDGES]"

definition compact_index :: "nat list \<Rightarrow> nat \<Rightarrow> nat" where
  "compact_index triangles e = length (filter (\<lambda>j. j \<in> set triangles) [0..<e])"

definition case_indices :: "nat list \<Rightarrow> nat list" where
  "case_indices triangles = map (compact_index triangles) triangles"

lemma assign_edges_eq:
  "distinct js \<Longrightarrow>
   assign_edges tris js ec pool t =
     (\<lambda>e. if e \<in> set js \<and> e \<in> set tris
          then Some (pool + length (filter (\<lambda>j. j \<in> set tris) (takeWhile (\<lambda>x. x \<noteq> e) js)))
          else ec e,
      pool + length (filter (\<lambda>j. j \<in> set tris) js),
      t\<lparr>hVertexTable := hVertexTable t @ map uchar (filter (\<lambda>j. j \<in> set tris) js),
        hKeyTable := hKeyTable t @ map edge_key (filter (\<lambda>j. j \<in> set tris) js)\<rparr>)"
proof (induction js arbitrary: ec pool t)
  case Nil
  then show ?case by simp
next
  case (Cons j js)
  then have d: "distinct js" and nj: "j \<notin> set js" by simp_all
  show ?case
  proof (cases "j \<in> set tris")
    case True
    then have c: "count_list tris j \<noteq> 0" by (simp add: count_list_0_iff)
    show ?thesis
      using True nj c by (simp add: Cons.IH [OF d] fun_eq_iff)
  next
    case False
    then have c: "count_list tris j = 0" by (simp add: count_list_0_iff)
    show ?thesis
      using False nj c by (auto simp: Cons.IH [OF d] fun_eq_iff)
  qed
qed

lemma takeWhile_upt: "e < n \<Longrightarrow> takeWhile (\<lambda>x. x \<noteq> e) [0..<n] = [0..<e]"
proof -
  assume "e < n"
  then have "[0..<n] = [0..<e] @ e # [Suc e..<n]"
    by (metis le_add1 less_imp_add_positive upt_add_eq_append upt_conv_Cons add.left_neutral less_or_eq_imp_le)
  moreover have "takeWhile (\<lambda>x. x \<noteq> e) ([0..<e] @ e # [Suc e..<n])
      = [0..<e] @ takeWhile (\<lambda>x. x \<noteq> e) (e # [Suc e..<n])"
    by (rule takeWhile_append2) simp
  ultimately show ?thesis
    by simp
qed

lemma index_loop_eq:
  "\<forall>e\<in>set es. ec e \<noteq> None \<Longrightarrow>
   index_loop es ec t = Some (t\<lparr>hIndexTable := hIndexTable t @ map (\<lambda>e. uchar (the (ec e))) es\<rparr>)"
  by (induction es arbitrary: t) auto

lemma compact_index_bound: "e < NUM_EDGES \<Longrightarrow> compact_index tris e < NUM_EDGES"
proof -
  assume "e < NUM_EDGES"
  have "compact_index tris e \<le> length [0..<e]"
    unfolding compact_index_def by (rule length_filter_le)
  with \<open>e < NUM_EDGES\<close> show ?thesis by simp
qed

lemma case_vertices_bound: "\<forall>j\<in>set (case_vertices tris). j < NUM_EDGES"
  by (simp add: case_vertices_def)

lemma length_case_vertices: "length (case_vertices tris) \<le> NUM_EDGES"
proof -
  have "length (case_vertices tris) \<le> length [0..<NUM_EDGES]"
    unfolding case_vertices_def by (rule length_filter_le)
  then show ?thesis by simp
qed

lemma uchar_small: "x < NUM_EDGES \<Longrightarrow> uchar x = x"
  by (simp add: uchar_def NUM_EDGES_def)

lemma emit_case_eq:
  assumes "\<forall>e\<in>set tris. e < NUM_EDGES"
  shows "emit_case i tris t =
     Some (t\<lparr>hVertexTable := hVertexTable t @ case_vertices tris,
             hIndexTable := hIndexTable t @ case_indices tris,
             hKeyTable := hKeyTable t @ map edge_key (case_vertices tris),
             hCountTable := (hCountTable t)
               [i := (uchar (length (hVertexTable t) + length (case_vertices tris)
                              - ushort (length (hVertexTable t))),
                      uchar (length (hIndexTable t) + length (case_indices tris)
                              - ushort (length (hIndexTable t))))],
             hStartTable := (hStartTable t)
               [i := (ushort (length (hVertexTable t)), ushort (length (hIndexTable t)))]\<rparr>)"
proof -
  let ?used = "\<lambda>j. j \<in> set tris"
  let ?ec = "\<lambda>e. if e \<in> set [0..<NUM_EDGES] \<and> e \<in> set tris
          then Some (0 + length (filter ?used (takeWhile (\<lambda>x. x \<noteq> e) [0..<NUM_EDGES])))
          else Map.empty e"
  have kv: "filter ?used [0..<NUM_EDGES] = case_vertices tris"
    by (simp add: case_vertices_def)
  have v: "map uchar (case_vertices tris) = case_vertices tris"
    unfolding case_vertices_def by (rule map_idI) (simp add: uchar_small)
  have defined: "\<forall>e\<in>set tris. ?ec e \<noteq> None"
    using assms by simp
  have idx: "map (\<lambda>e. uchar (the (?ec e))) tris = case_indices tris"
    unfolding case_indices_def
  proof (rule map_cong [OF refl])
    fix e assume e: "e \<in> set tris"
    with assms have lt: "e < NUM_EDGES" by simp
    then have "the (?ec e) = compact_index tris e"
      using e by (simp add: takeWhile_upt compact_index_def)
    then show "uchar (the (?ec e)) = compact_index tris e"
      using compact_index_bound [OF lt, of tris] by (simp add: uchar_small)
  qed
  show ?thesis
    unfolding emit_case_def Let_def
    by (simp add: assign_edges_eq index_loop_eq [OF defined] kv v idx del: set_upt)
qed

subsection \<open>The loop over the cube cases\<close>

definition tris_of :: "nat \<Rightarrow> nat list" where
  "tris_of i = the (cube_triangles i)"

definition all_vertices :: "nat \<Rightarrow> nat list" where
  "all_vertices n = concat (map (\<lambda>i. case_vertices (tris_of i)) [0..<n])"

definition all_indices :: "nat \<Rightarrow> nat list" where
  "all_indices n = concat (map (\<lambda>i. case_indices (tris_of i)) [0..<n])"

lemma cube_triangles_tris_of:
  "cube_triangles i = Some (tris_of i)"
  using cube_triangles_total [of i] by (auto simp: tris_of_def)

lemma tris_of_bound: "\<forall>e\<in>set (tris_of i). e < NUM_EDGES"
  using cube_triangles_total [of i] by (auto simp: tris_of_def)

lemma length_tris_of: "length (tris_of i) \<le> 36"
  using cube_triangles_total [of i] by (auto simp: tris_of_def)


lemma all_vertices_Suc: "all_vertices (Suc n) = all_vertices n @ case_vertices (tris_of n)"
  by (simp add: all_vertices_def)

lemma all_indices_Suc: "all_indices (Suc n) = all_indices n @ case_indices (tris_of n)"
  by (simp add: all_indices_def)

lemma length_all_vertices: "length (all_vertices n) \<le> 19 * n"
proof (induction n)
  case 0
  then show ?case by (simp add: all_vertices_def)
next
  case (Suc n)
  have "length (case_vertices (tris_of n)) \<le> 19"
    using length_case_vertices [of "tris_of n"] by (simp add: NUM_EDGES_def)
  with Suc show ?case by (simp add: all_vertices_Suc)
qed

lemma length_all_indices: "length (all_indices n) \<le> 36 * n"
proof (induction n)
  case 0
  then show ?case by (simp add: all_indices_def)
next
  case (Suc n)
  have "length (case_indices (tris_of n)) \<le> 36"
    using length_tris_of [of n] by (simp add: case_indices_def)
  with Suc show ?case by (simp add: all_indices_Suc)
qed

lemma all_vertices_mono: "m \<le> n \<Longrightarrow> length (all_vertices m) \<le> length (all_vertices n)"
  by (induction n) (auto simp: all_vertices_Suc le_Suc_eq)

lemma all_indices_mono: "m \<le> n \<Longrightarrow> length (all_indices m) \<le> length (all_indices n)"
  by (induction n) (auto simp: all_indices_Suc le_Suc_eq)

lemma cases_loop_append:
  "cases_loop (xs @ ys) t =
     (case cases_loop xs t of None \<Rightarrow> None | Some t' \<Rightarrow> cases_loop ys t')"
  by (induction xs arbitrary: t) (auto split: option.splits)

lemma update_replicate:
  "0 < k \<Longrightarrow> length xs = n \<Longrightarrow> (xs @ replicate k x)[n := v] = xs @ v # replicate (k - 1) x"
  by (cases k) (simp_all add: list_update_append)

definition tables_after :: "nat \<Rightarrow> tables" where
  "tables_after n =
     \<lparr>hVertexTable = all_vertices n,
      hIndexTable = all_indices n,
      hKeyTable = map edge_key (all_vertices n),
      hCountTable =
        map (\<lambda>i. (length (case_vertices (tris_of i)), length (case_indices (tris_of i)))) [0..<n]
          @ replicate (NUM_CUBES - n) (0, 0),
      hStartTable =
        map (\<lambda>i. (length (all_vertices i), length (all_indices i))) [0..<n]
          @ replicate (NUM_CUBES + 1 - n) (0, 0)\<rparr>"

lemma emit_case_step:
  assumes "n < NUM_CUBES"
  shows "emit_case n (tris_of n) (tables_after n) = Some (tables_after (Suc n))"
proof -
  have nv: "length (all_vertices n) < 65536"
    using length_all_vertices [of n] assms by (simp add: NUM_CUBES_def)
  have ni: "length (all_indices n) < 65536"
    using length_all_indices [of n] assms by (simp add: NUM_CUBES_def)
  have cv: "length (case_vertices (tris_of n)) < 256"
    using length_case_vertices [of "tris_of n"] by (simp add: NUM_EDGES_def)
  have ci: "length (case_indices (tris_of n)) < 256"
    using length_tris_of [of n] by (simp add: case_indices_def)
  have k1: "0 < NUM_CUBES - n" and k2: "0 < Suc NUM_CUBES - n"
    using assms by simp_all
  have e1: "NUM_CUBES - n - 1 = NUM_CUBES - Suc n" and e2: "Suc NUM_CUBES - n - 1 = NUM_CUBES - n"
    using assms by simp_all
  show ?thesis
    unfolding emit_case_eq [OF tris_of_bound]
    using nv ni cv ci
    by (simp add: tables_after_def update_replicate [OF k1] update_replicate [OF k2] e1 e2
          all_vertices_Suc all_indices_Suc uchar_def ushort_def
          del: replicate_Suc)
qed

lemma cases_loop_upt:
  "n \<le> NUM_CUBES \<Longrightarrow> cases_loop [0..<n] initial_tables = Some (tables_after n)"
proof (induction n)
  case 0
  show ?case
    by (simp add: initial_tables_def tables_after_def all_vertices_def all_indices_def)
next
  case (Suc n)
  then have "n < NUM_CUBES" by simp
  from emit_case_step [OF this] Suc show ?case
    by (simp add: cases_loop_append cube_triangles_tris_of)
qed

definition final_tables :: tables where
  "final_tables =
     \<lparr>hVertexTable = all_vertices NUM_CUBES @ all_indices NUM_CUBES,
      hIndexTable = all_indices NUM_CUBES,
      hKeyTable = map edge_key (all_vertices NUM_CUBES),
      hCountTable =
        map (\<lambda>i. (length (case_vertices (tris_of i)), length (case_indices (tris_of i))))
          [0..<NUM_CUBES],
      hStartTable =
        map (\<lambda>i. (length (all_vertices i),
                  length (all_vertices NUM_CUBES) + length (all_indices i)))
          [0..<NUM_CUBES + 1]\<rparr>"

lemma makeTables_eq: "makeTables = Some final_tables"
proof -
  let ?nv = "length (all_vertices NUM_CUBES)"
  have nv: "?nv \<le> 4864"
    using length_all_vertices [of NUM_CUBES] by (simp add: NUM_CUBES_def)
  have ni: "length (all_indices NUM_CUBES) \<le> 9216"
    using length_all_indices [of NUM_CUBES] by (simp add: NUM_CUBES_def)
  have sentinel: "(map (\<lambda>i. (length (all_vertices i), length (all_indices i))) [0..<NUM_CUBES]
          @ replicate (NUM_CUBES + 1 - NUM_CUBES) (0, 0))[NUM_CUBES := v]
        = map (\<lambda>i. (length (all_vertices i), length (all_indices i))) [0..<NUM_CUBES] @ [v]" for v
    by (subst update_replicate) simp_all
  have shift: "\<forall>i\<in>set [0..<NUM_CUBES]. ushort (length (all_indices i) + ?nv) = ?nv + length (all_indices i)"
  proof
    fix i assume "i \<in> set [0..<NUM_CUBES]"
    then have "i \<le> NUM_CUBES" by simp
    from all_indices_mono [OF this] nv ni
    show "ushort (length (all_indices i) + ?nv) = ?nv + length (all_indices i)"
      by (simp add: ushort_def)
  qed
  have shiftN: "ushort (length (all_indices NUM_CUBES) + ?nv) = ?nv + length (all_indices NUM_CUBES)"
    using nv ni by (simp add: ushort_def)
  have u1: "ushort ?nv = ?nv" and u2: "ushort (length (all_indices NUM_CUBES)) = length (all_indices NUM_CUBES)"
    using nv ni by (simp_all add: ushort_def)
  have starts: "map (\<lambda>s. (fst s, ushort (snd s + ?nv)))
          (map (\<lambda>i. (length (all_vertices i), length (all_indices i))) [0..<NUM_CUBES]
             @ [(?nv, length (all_indices NUM_CUBES))])
        = map (\<lambda>i. (length (all_vertices i), ?nv + length (all_indices i))) [0..<NUM_CUBES + 1]"
    using shift shiftN by simp
  have "finish_tables (tables_after NUM_CUBES) = final_tables"
    unfolding finish_tables_def tables_after_def final_tables_def Let_def
    by (simp only: tables.simps sentinel u1 u2 starts diff_self_eq_0 replicate_0 append_Nil2)
  then show ?thesis
    by (simp add: makeTables_def cases_loop_upt)
qed

subsection \<open>Reading the finished tables\<close>

text \<open>
  How a reader of the finished tables finds the rows of case \<open>i\<close>: \<open>count\<close> elements of
  the data table from the start offset, for the vertex part and for the index part.
\<close>

definition table_vertices :: "tables \<Rightarrow> nat \<Rightarrow> nat list" where
  "table_vertices T i =
     take (fst (hCountTable T ! i)) (drop (fst (hStartTable T ! i)) (hVertexTable T))"

definition table_indices :: "tables \<Rightarrow> nat \<Rightarrow> nat list" where
  "table_indices T i =
     take (snd (hCountTable T ! i)) (drop (snd (hStartTable T ! i)) (hVertexTable T))"

text \<open>
  The order of first use, following the specification's words ("assign compact per-case
  vertex indices in first-use order"): the distinct entries of the triangle list, each at
  the place of its first occurrence. It is compared with what the source does.
\<close>

fun first_use_order :: "nat list \<Rightarrow> nat list" where
  "first_use_order [] = []"
| "first_use_order (e # es) = e # filter (\<lambda>x. x \<noteq> e) (first_use_order es)"

lemma upt_split: "i \<le> n \<Longrightarrow> [0..<n] = [0..<i] @ [i..<n]"
  by (metis le_iff_add upt_add_eq_append zero_le)

lemma all_vertices_split:
  assumes "i < n"
  shows "\<exists>rest. all_vertices n = all_vertices i @ case_vertices (tris_of i) @ rest"
proof -
  from assms have "[0..<n] = [0..<i] @ i # [Suc i..<n]"
    using upt_split [of i n] by (simp add: upt_conv_Cons)
  then show ?thesis
    by (simp add: all_vertices_def)
qed

lemma all_indices_split:
  assumes "i < n"
  shows "\<exists>rest. all_indices n = all_indices i @ case_indices (tris_of i) @ rest"
proof -
  from assms have "[0..<n] = [0..<i] @ i # [Suc i..<n]"
    using upt_split [of i n] by (simp add: upt_conv_Cons)
  then show ?thesis
    by (simp add: all_indices_def)
qed

lemma final_count:
  "i < NUM_CUBES \<Longrightarrow>
   hCountTable final_tables ! i = (length (case_vertices (tris_of i)), length (case_indices (tris_of i)))"
  by (simp add: final_tables_def)

lemma final_start:
  "i \<le> NUM_CUBES \<Longrightarrow>
   hStartTable final_tables ! i =
     (length (all_vertices i), length (all_vertices NUM_CUBES) + length (all_indices i))"
  by (simp add: final_tables_def nth_append del: upt_Suc)

lemma table_rows:
  assumes "i < NUM_CUBES"
  shows "table_vertices final_tables i = case_vertices (tris_of i)"
    and "table_indices final_tables i = case_indices (tris_of i)"
proof -
  from all_vertices_split [OF assms] obtain r1
    where v: "all_vertices NUM_CUBES = all_vertices i @ case_vertices (tris_of i) @ r1"
    by blast
  from all_indices_split [OF assms] obtain r2
    where x: "all_indices NUM_CUBES = all_indices i @ case_indices (tris_of i) @ r2"
    by blast
  have le: "i \<le> NUM_CUBES" using assms by simp
  have d: "hVertexTable final_tables = all_vertices NUM_CUBES @ all_indices NUM_CUBES"
    by (simp add: final_tables_def)
  show "table_vertices final_tables i = case_vertices (tris_of i)"
    unfolding table_vertices_def final_count [OF assms] final_start [OF le] d
    by (subst v) simp
  have "drop (length (all_vertices NUM_CUBES) + length (all_indices i))
          (all_vertices NUM_CUBES @ all_indices NUM_CUBES)
        = drop (length (all_indices i)) (all_indices NUM_CUBES)"
    by simp
  also have "\<dots> = case_indices (tris_of i) @ r2"
    by (subst x) simp
  finally show "table_indices final_tables i = case_indices (tris_of i)"
    unfolding table_indices_def final_count [OF assms] final_start [OF le] d
    by simp
qed

lemma case_vertices_nth:
  assumes "e \<in> set tris" and "e < NUM_EDGES"
  shows "compact_index tris e < length (case_vertices tris)"
    and "case_vertices tris ! compact_index tris e = e"
proof -
  let ?P = "\<lambda>j. j \<in> set tris"
  have "[0..<NUM_EDGES] = [0..<e] @ e # [Suc e..<NUM_EDGES]"
    using assms(2) upt_split [of e NUM_EDGES] by (simp add: upt_conv_Cons)
  then have "case_vertices tris = filter ?P [0..<e] @ e # filter ?P [Suc e..<NUM_EDGES]"
    using assms(1) by (simp add: case_vertices_def)
  then show "compact_index tris e < length (case_vertices tris)"
    and "case_vertices tris ! compact_index tris e = e"
    by (simp_all add: compact_index_def nth_append)
qed

lemma case_vertices_sorted:
  "sorted_wrt (<) (case_vertices tris)"
  unfolding case_vertices_def by (rule sorted_wrt_filter) simp

lemma case_vertices_set:
  "\<forall>e\<in>set tris. e < NUM_EDGES \<Longrightarrow> set (case_vertices tris) = set tris"
  by (auto simp: case_vertices_def)

lemma data_at_index_start:
  assumes "k < length (table_indices T i)"
  shows "hVertexTable T ! (snd (hStartTable T ! i) + k) = table_indices T i ! k"
proof -
  let ?s = "snd (hStartTable T ! i)" and ?c = "snd (hCountTable T ! i)"
  from assms have k: "k < ?c" and kd: "k < length (drop ?s (hVertexTable T))"
    by (simp_all add: table_indices_def)
  then have "?s + k < length (hVertexTable T)"
    by simp
  then have "drop ?s (hVertexTable T) ! k = hVertexTable T ! (?s + k)"
    by simp
  with k show ?thesis
    by (simp add: table_indices_def)
qed

text \<open>
  Claim C4. \<open>makeTables\<close> returns tables in which, for every case \<open>i\<close> below 256, the count row
  is the difference of two consecutive start rows, componentwise; the sentinel row 256 holds
  the length of the vertex part and the end of the index part; the data table is the vertex
  part followed by the index part, and every index start carries the length of the vertex
  part as its offset; and the \<open>count\<close> elements of the data table from \<open>start[i].v\<close> are the
  vertex edge list of case \<open>i\<close>, those from \<open>start[i].i\<close> its triangle index list.
\<close>

theorem makeTables_start_count_data:
  "\<exists>T. makeTables = Some T
     \<and> length (hCountTable T) = NUM_CUBES \<and> length (hStartTable T) = NUM_CUBES + 1
     \<and> (\<forall>i<NUM_CUBES.
           fst (hStartTable T ! i) \<le> fst (hStartTable T ! (i + 1))
         \<and> snd (hStartTable T ! i) \<le> snd (hStartTable T ! (i + 1))
         \<and> fst (hCountTable T ! i) = fst (hStartTable T ! (i + 1)) - fst (hStartTable T ! i)
         \<and> snd (hCountTable T ! i) = snd (hStartTable T ! (i + 1)) - snd (hStartTable T ! i)
         \<and> table_vertices T i = case_vertices (tris_of i)
         \<and> table_indices T i = case_indices (tris_of i))
     \<and> hVertexTable T = all_vertices NUM_CUBES @ all_indices NUM_CUBES
     \<and> fst (hStartTable T ! NUM_CUBES) = length (all_vertices NUM_CUBES)
     \<and> snd (hStartTable T ! NUM_CUBES) = length (all_vertices NUM_CUBES) + length (all_indices NUM_CUBES)
     \<and> (\<forall>i\<le>NUM_CUBES.
           fst (hStartTable T ! i) = length (all_vertices i)
         \<and> snd (hStartTable T ! i) = length (all_vertices NUM_CUBES) + length (all_indices i))"
proof -
  have rows: "fst (hStartTable final_tables ! i) \<le> fst (hStartTable final_tables ! (i + 1))
         \<and> snd (hStartTable final_tables ! i) \<le> snd (hStartTable final_tables ! (i + 1))
         \<and> fst (hCountTable final_tables ! i)
             = fst (hStartTable final_tables ! (i + 1)) - fst (hStartTable final_tables ! i)
         \<and> snd (hCountTable final_tables ! i)
             = snd (hStartTable final_tables ! (i + 1)) - snd (hStartTable final_tables ! i)
         \<and> table_vertices final_tables i = case_vertices (tris_of i)
         \<and> table_indices final_tables i = case_indices (tris_of i)"
    if "i < NUM_CUBES" for i
  proof -
    from that have le: "i \<le> NUM_CUBES" and le': "Suc i \<le> NUM_CUBES"
      by simp_all
    show ?thesis
      using table_rows [OF that]
      by (simp add: final_count [OF that] final_start [OF le] final_start [OF le']
            all_vertices_Suc all_indices_Suc)
  qed
  have starts: "fst (hStartTable final_tables ! i) = length (all_vertices i)
         \<and> snd (hStartTable final_tables ! i)
             = length (all_vertices NUM_CUBES) + length (all_indices i)"
    if "i \<le> NUM_CUBES" for i
    by (simp add: final_start [OF that])
  have "length (hCountTable final_tables) = NUM_CUBES"
    and "length (hStartTable final_tables) = NUM_CUBES + 1"
    and "hVertexTable final_tables = all_vertices NUM_CUBES @ all_indices NUM_CUBES"
    by (simp_all add: final_tables_def)
  with rows starts starts [of NUM_CUBES] makeTables_eq show ?thesis
    by (intro exI [of _ final_tables]) simp
qed

theorem makeTables_start_count_data_witness:
  "(1::nat) < NUM_CUBES
     \<and> table_vertices (the makeTables) 1 = [0, 1, 2, 5, 6, 9, 12]
     \<and> table_indices (the makeTables) 1 = [0, 6, 2, 1, 2, 6, 1, 6, 5, 3, 5, 6, 3, 6, 4, 0, 4, 6]
     \<and> hCountTable (the makeTables) ! 1 = (7, 18)"
proof -
  have h: "(1::nat) < NUM_CUBES"
    by (simp add: NUM_CUBES_def)
  have v: "case_vertices (tris_of 1) = [0, 1, 2, 5, 6, 9, 12]"
    by code_simp
  have x: "case_indices (tris_of 1) = [0, 6, 2, 1, 2, 6, 1, 6, 5, 3, 5, 6, 3, 6, 4, 0, 4, 6]"
    by code_simp
  from makeTables_start_count_data obtain T where T: "makeTables = Some T"
    and rows: "\<forall>i<NUM_CUBES.
           fst (hStartTable T ! i) \<le> fst (hStartTable T ! (i + 1))
         \<and> snd (hStartTable T ! i) \<le> snd (hStartTable T ! (i + 1))
         \<and> fst (hCountTable T ! i) = fst (hStartTable T ! (i + 1)) - fst (hStartTable T ! i)
         \<and> snd (hCountTable T ! i) = snd (hStartTable T ! (i + 1)) - snd (hStartTable T ! i)
         \<and> table_vertices T i = case_vertices (tris_of i)
         \<and> table_indices T i = case_indices (tris_of i)"
    and st: "\<forall>i\<le>NUM_CUBES.
           fst (hStartTable T ! i) = length (all_vertices i)
         \<and> snd (hStartTable T ! i) = length (all_vertices NUM_CUBES) + length (all_indices i)"
    by blast
  from rows h have r: "fst (hCountTable T ! 1) = fst (hStartTable T ! (1 + 1)) - fst (hStartTable T ! 1)"
     "snd (hCountTable T ! 1) = snd (hStartTable T ! (1 + 1)) - snd (hStartTable T ! 1)"
     "table_vertices T 1 = case_vertices (tris_of 1)"
     "table_indices T 1 = case_indices (tris_of 1)"
    by blast+
  have "(1::nat) \<le> NUM_CUBES" "(1::nat) + 1 \<le> NUM_CUBES"
    by (simp_all add: NUM_CUBES_def)
  with st have s: "fst (hStartTable T ! 1) = length (all_vertices 1)"
      "snd (hStartTable T ! 1) = length (all_vertices NUM_CUBES) + length (all_indices 1)"
      "fst (hStartTable T ! (1 + 1)) = length (all_vertices (1 + 1))"
      "snd (hStartTable T ! (1 + 1)) = length (all_vertices NUM_CUBES) + length (all_indices (1 + 1))"
    by blast+
  have "all_vertices (1 + 1) = all_vertices 1 @ case_vertices (tris_of 1)"
    and "all_indices (1 + 1) = all_indices 1 @ case_indices (tris_of 1)"
    using all_vertices_Suc [of 1] all_indices_Suc [of 1] by simp_all
  then have cnt: "hCountTable T ! 1 = (7, 18)"
    using r(1,2) s v x
    by (simp add: prod_eq_iff del: One_nat_def)
  moreover have "the makeTables = T"
    unfolding T by simp
  ultimately show ?thesis
    using h r(3,4) v x by simp
qed

text \<open>
  Claim C7, amended. For every cube case \<open>i\<close>, the vertex list of the case holds exactly the
  edges that its triangle list uses, in ascending edge number (the compact index of an edge
  is its position in that list), and every entry of the triangle list is rewritten to the
  compact index of its edge: entry \<open>k\<close> of the index list, which is the data table at
  \<open>start[i].i + k\<close>, is the position of the \<open>k\<close>-th triangle corner's edge in the vertex list.
\<close>

theorem compact_indices_in_edge_order:
  assumes "i < NUM_CUBES"
  shows "\<exists>T tris. makeTables = Some T \<and> cube_triangles i = Some tris
           \<and> sorted_wrt (<) (table_vertices T i)
           \<and> set (table_vertices T i) = set tris
           \<and> length (table_indices T i) = length tris
           \<and> (\<forall>k<length tris.
                  table_indices T i ! k < length (table_vertices T i)
                \<and> table_vertices T i ! (table_indices T i ! k) = tris ! k
                \<and> hVertexTable T ! (snd (hStartTable T ! i) + k) = table_indices T i ! k)"
proof -
  let ?tris = "tris_of i"
  note rows = table_rows [OF assms]
  have "sorted_wrt (<) (table_vertices final_tables i)"
    unfolding rows by (rule case_vertices_sorted)
  moreover have "set (table_vertices final_tables i) = set ?tris"
    unfolding rows by (rule case_vertices_set [OF tris_of_bound])
  moreover have len: "length (table_indices final_tables i) = length ?tris"
    unfolding rows by (simp add: case_indices_def)
  moreover have "table_indices final_tables i ! k < length (table_vertices final_tables i)
                \<and> table_vertices final_tables i ! (table_indices final_tables i ! k) = ?tris ! k
                \<and> hVertexTable final_tables ! (snd (hStartTable final_tables ! i) + k)
                    = table_indices final_tables i ! k"
    if "k < length ?tris" for k
  proof -
    from that have mem: "?tris ! k \<in> set ?tris"
      by simp
    with tris_of_bound [of i] have lt: "?tris ! k < NUM_EDGES"
      by blast
    have "table_indices final_tables i ! k = compact_index ?tris (?tris ! k)"
      unfolding rows using that by (simp add: case_indices_def)
    moreover have "hVertexTable final_tables ! (snd (hStartTable final_tables ! i) + k)
                    = table_indices final_tables i ! k"
      using that len by (intro data_at_index_start) simp
    ultimately show ?thesis
      using case_vertices_nth [OF mem lt] by (simp add: rows)
  qed
  ultimately show ?thesis
    using makeTables_eq cube_triangles_tris_of [of i]
    by (intro exI [of _ final_tables] exI [of _ ?tris]) simp
qed

theorem compact_indices_in_edge_order_witness:
  "(1::nat) < NUM_CUBES
     \<and> cube_triangles 1 = Some [0, 12, 2, 1, 2, 12, 1, 12, 9, 5, 9, 12, 5, 12, 6, 0, 6, 12]
     \<and> set (table_vertices (the makeTables) 1) = {0, 1, 2, 5, 6, 9, 12}
     \<and> sorted_wrt (<) (table_vertices (the makeTables) 1)"
proof -
  have h: "(1::nat) < NUM_CUBES"
    by (simp add: NUM_CUBES_def)
  have c: "cube_triangles 1 = Some [0, 12, 2, 1, 2, 12, 1, 12, 9, 5, 9, 12, 5, 12, 6, 0, 6, 12]"
    by code_simp
  from compact_indices_in_edge_order [OF h] c obtain T
    where T: "makeTables = Some T"
      and s: "sorted_wrt (<) (table_vertices T 1)"
      and e: "set (table_vertices T 1) = set [0, 12, 2, 1, 2, 12, 1, 12, 9, 5, 9, 12, 5, 12, 6, 0, 6, 12]"
    by auto
  have "the makeTables = T"
    unfolding T by simp
  with h c s e show ?thesis
    by auto
qed

text \<open>
  Claim C7 as the specification states it fails: in case 1 the triangle list uses the edges
  in the order 0, 12, 2, 1, 9, 5, 6, and the vertex list of the table is in ascending edge
  number.
\<close>

theorem compact_indices_first_use_counterexample:
  "table_vertices (the makeTables) 1 = [0, 1, 2, 5, 6, 9, 12]
     \<and> first_use_order (the (cube_triangles 1)) = [0, 12, 2, 1, 9, 5, 6]
     \<and> table_vertices (the makeTables) 1 \<noteq> first_use_order (the (cube_triangles 1))"
proof -
  have "(1::nat) < NUM_CUBES"
    by (simp add: NUM_CUBES_def)
  from table_rows(1) [OF this] have "table_vertices (the makeTables) 1 = case_vertices (tris_of 1)"
    unfolding makeTables_eq by simp
  moreover have "case_vertices (tris_of 1) = [0, 1, 2, 5, 6, 9, 12]"
    by code_simp
  moreover have "first_use_order (the (cube_triangles 1)) = [0, 12, 2, 1, 9, 5, 6]"
    by code_simp
  ultimately show ?thesis
    by simp
qed

section \<open>The edge lookup and the key table\<close>

lemma findEdge_loop_finds:
  "(a, b) \<in> set es \<Longrightarrow> \<exists>k. findEdge_loop es i a b = Some k"
  by (induction es arbitrary: i) auto

lemma edgeIndices_ordered: "(a, b) \<in> set edgeIndices \<Longrightarrow> a < b"
  by (auto simp: edgeIndices_def)

lemma edgeIndices_distinct: "distinct edgeIndices"
  by (simp add: edgeIndices_def)

lemma length_edgeIndices: "length edgeIndices = NUM_EDGES"
  by (simp add: edgeIndices_def NUM_EDGES_def)

lemma findEdge_canonical:
  assumes "(a, b) \<in> set edgeIndices"
  shows "\<exists>i<NUM_EDGES. findEdge_loop edgeIndices 0 a b = Some i \<and> edgeIndices ! i = (a, b)
           \<and> (\<forall>k<NUM_EDGES. edgeIndices ! k = (a, b) \<longrightarrow> k = i)"
proof -
  from findEdge_loop_finds [OF assms, of 0]
  obtain i where f: "findEdge_loop edgeIndices 0 a b = Some i"
    by blast
  from findEdge_loop_Some [OF f] have lt: "i < NUM_EDGES" and at: "edgeIndices ! i = (a, b)"
    by (simp_all add: length_edgeIndices)
  have "k = i" if "k < NUM_EDGES" and "edgeIndices ! k = (a, b)" for k
  proof -
    have "(edgeIndices ! k = edgeIndices ! i) = (k = i)"
      by (rule nth_eq_iff_index_eq [OF edgeIndices_distinct])
         (simp_all add: length_edgeIndices that lt)
    with that at show ?thesis
      by simp
  qed
  with f lt at show ?thesis
    by blast
qed

lemma findEdgeByVertexIds_sym: "findEdgeByVertexIds v0 v1 = findEdgeByVertexIds v1 v0"
  by (cases v0 v1 rule: linorder_cases) (simp_all add: findEdgeByVertexIds_def)

lemma axis_bit: "(drop_bit axis (x::nat) AND 1) = of_bool (bit x axis)"
  by (simp add: and_one_eq bit_iff_odd_drop_bit mod_2_eq_odd)

lemma edge_key_bits:
  "edge_key j =
     map (\<lambda>axis. of_bool (bit (fst (edgeIndices ! j)) axis) + of_bool (bit (snd (edgeIndices ! j)) axis))
       [0, 1, 2]"
proof -
  have "[0..<3] = [0, 1, 2::nat]"
    by (simp add: upt_rec)
  then show ?thesis
    unfolding edge_key_def axis_bit by (simp only:)
qed

lemma all_vertices_bound: "\<forall>j\<in>set (all_vertices n). j < NUM_EDGES"
  using case_vertices_bound by (auto simp: all_vertices_def)

text \<open>
  Claim C8. For a pair of cube vertices that is one of the 19 edges, in either order,
  \<open>findEdgeByVertexIds\<close> returns the one index below 19 whose row of \<open>edgeIndices\<close> is the
  ordered pair; the function is symmetric in its arguments; and the key table has one row
  per emitted vertex, whose three entries are the sums of the axis bits of the two endpoints
  of that vertex's edge, each 0, 1 or 2.
\<close>

theorem findEdgeByVertexIds_canonical_index:
  "((v0, v1) \<in> set edgeIndices \<or> (v1, v0) \<in> set edgeIndices \<longrightarrow>
      (\<exists>i<NUM_EDGES. findEdgeByVertexIds v0 v1 = Some i
          \<and> edgeIndices ! i = (min v0 v1, max v0 v1)
          \<and> (\<forall>k<NUM_EDGES. edgeIndices ! k = (min v0 v1, max v0 v1) \<longrightarrow> k = i)))
   \<and> findEdgeByVertexIds v0 v1 = findEdgeByVertexIds v1 v0
   \<and> (\<exists>T. makeTables = Some T
         \<and> length (hKeyTable T) = fst (hStartTable T ! NUM_CUBES)
         \<and> (\<forall>k<length (hKeyTable T).
               hVertexTable T ! k < NUM_EDGES
             \<and> hKeyTable T ! k =
                 map (\<lambda>axis. of_bool (bit (fst (edgeIndices ! (hVertexTable T ! k))) axis)
                            + of_bool (bit (snd (edgeIndices ! (hVertexTable T ! k))) axis))
                   [0, 1, 2]
             \<and> set (hKeyTable T ! k) \<subseteq> {0, 1, 2}))"
proof (intro conjI impI)
  assume e: "(v0, v1) \<in> set edgeIndices \<or> (v1, v0) \<in> set edgeIndices"
  show "\<exists>i<NUM_EDGES. findEdgeByVertexIds v0 v1 = Some i
          \<and> edgeIndices ! i = (min v0 v1, max v0 v1)
          \<and> (\<forall>k<NUM_EDGES. edgeIndices ! k = (min v0 v1, max v0 v1) \<longrightarrow> k = i)"
  proof (cases "(v0, v1) \<in> set edgeIndices")
    case True
    from edgeIndices_ordered [OF True] have "v0 < v1" .
    then have "findEdgeByVertexIds v0 v1 = findEdge_loop edgeIndices 0 v0 v1"
      and "min v0 v1 = v0" and "max v0 v1 = v1"
      by (simp_all add: findEdgeByVertexIds_def)
    with findEdge_canonical [OF True] show ?thesis
      by simp
  next
    case False
    with e have in': "(v1, v0) \<in> set edgeIndices"
      by simp
    from edgeIndices_ordered [OF in'] have "v1 < v0" .
    then have "findEdgeByVertexIds v0 v1 = findEdge_loop edgeIndices 0 v1 v0"
      and "min v0 v1 = v1" and "max v0 v1 = v0"
      by (simp_all add: findEdgeByVertexIds_def)
    with findEdge_canonical [OF in'] show ?thesis
      by simp
  qed
next
  show "findEdgeByVertexIds v0 v1 = findEdgeByVertexIds v1 v0"
    by (rule findEdgeByVertexIds_sym)
next
  have len: "length (hKeyTable final_tables) = fst (hStartTable final_tables ! NUM_CUBES)"
    by (simp add: final_start) (simp add: final_tables_def)
  have "hVertexTable final_tables ! k < NUM_EDGES
       \<and> hKeyTable final_tables ! k =
           map (\<lambda>axis. of_bool (bit (fst (edgeIndices ! (hVertexTable final_tables ! k))) axis)
                      + of_bool (bit (snd (edgeIndices ! (hVertexTable final_tables ! k))) axis))
             [0, 1, 2]
       \<and> set (hKeyTable final_tables ! k) \<subseteq> {0, 1, 2}"
    if "k < length (hKeyTable final_tables)" for k
  proof -
    from that have k: "k < length (all_vertices NUM_CUBES)"
      by (simp add: final_tables_def)
    then have v: "hVertexTable final_tables ! k = all_vertices NUM_CUBES ! k"
      by (simp add: final_tables_def nth_append)
    from k have key: "hKeyTable final_tables ! k = edge_key (all_vertices NUM_CUBES ! k)"
      by (simp add: final_tables_def)
    from k have "all_vertices NUM_CUBES ! k \<in> set (all_vertices NUM_CUBES)"
      by (rule nth_mem)
    with all_vertices_bound have "all_vertices NUM_CUBES ! k < NUM_EDGES"
      by blast
    moreover have "set (edge_key j) \<subseteq> {0, 1, 2}" for j
      by (auto simp: edge_key_bits)
    ultimately show ?thesis
      using v key by (simp add: edge_key_bits)
  qed
  with len makeTables_eq
  show "\<exists>T. makeTables = Some T
         \<and> length (hKeyTable T) = fst (hStartTable T ! NUM_CUBES)
         \<and> (\<forall>k<length (hKeyTable T).
               hVertexTable T ! k < NUM_EDGES
             \<and> hKeyTable T ! k =
                 map (\<lambda>axis. of_bool (bit (fst (edgeIndices ! (hVertexTable T ! k))) axis)
                            + of_bool (bit (snd (edgeIndices ! (hVertexTable T ! k))) axis))
                   [0, 1, 2]
             \<and> set (hKeyTable T ! k) \<subseteq> {0, 1, 2})"
    by (intro exI [of _ final_tables]) simp
qed

theorem findEdgeByVertexIds_canonical_index_witness:
  "((7, 3) \<in> set edgeIndices \<or> (3, 7) \<in> set edgeIndices)
     \<and> (\<exists>i<NUM_EDGES. findEdgeByVertexIds 7 3 = Some i \<and> edgeIndices ! i = (3, 7))
     \<and> findEdgeByVertexIds 7 3 = findEdgeByVertexIds 3 7"
proof -
  have h: "(7, 3) \<in> set edgeIndices \<or> (3, 7) \<in> set edgeIndices"
    by (simp add: edgeIndices_def)
  from findEdgeByVertexIds_canonical_index [of 7 3] h
  have "\<exists>i<NUM_EDGES. findEdgeByVertexIds 7 3 = Some i
          \<and> edgeIndices ! i = (min 7 3, max 7 3)
          \<and> (\<forall>k<NUM_EDGES. edgeIndices ! k = (min 7 3, max 7 3) \<longrightarrow> k = i)"
    and s: "findEdgeByVertexIds 7 3 = findEdgeByVertexIds 3 7"
    by blast+
  then have "\<exists>i<NUM_EDGES. findEdgeByVertexIds 7 3 = Some i \<and> edgeIndices ! i = (3, 7)"
    by auto
  with h s show ?thesis
    by blast
qed

section \<open>Complementary cube cases\<close>

lemma complement_int: "(i::nat) < 256 \<Longrightarrow> int (255 - i) = take_bit 8 (NOT (int i))"
proof -
  assume "i < 256"
  have "take_bit 8 (NOT (int i)) = (- int i - 1) mod 256"
    by (simp add: take_bit_eq_mod not_int_def)
  also have "\<dots> = (- int i - 1 + 256) mod 256"
    by (simp only: mod_add_self2)
  also have "\<dots> = (255 - int i) mod 256"
    by simp
  also have "\<dots> = 255 - int i"
    using \<open>i < 256\<close> by simp
  finally show ?thesis using \<open>i < 256\<close> by simp
qed

lemma bit_complement:
  assumes "(i::nat) < 256" and "v < 8"
  shows "bit (255 - i) v = (\<not> bit i v)"
proof -
  have "bit (255 - i) v = bit (int (255 - i)) v"
    by (simp add: bit_of_nat_iff_bit)
  also have "\<dots> = bit (take_bit 8 (NOT (int i))) v"
    by (simp only: complement_int [OF assms(1)])
  also have "\<dots> = (\<not> bit i v)"
    using assms(2) by (simp add: bit_take_bit_iff bit_not_iff bit_of_nat_iff_bit)
  finally show ?thesis .
qed

text \<open>
  A list of triangle corners read three at a time; the oriented edges of its triangles; and
  its triangles with all three rotations of each, so that two lists have the same windings
  when they hold the same triangles with the same orientation.
\<close>

fun triangle_list :: "nat list \<Rightarrow> (nat \<times> nat \<times> nat) list" where
  "triangle_list (a # b # c # rest) = (a, b, c) # triangle_list rest"
| "triangle_list rest = []"

definition oriented_edges :: "nat list \<Rightarrow> (nat \<times> nat) set" where
  "oriented_edges tris = (\<Union>(a, b, c)\<in>set (triangle_list tris). {(a, b), (b, c), (c, a)})"

definition windings :: "nat list \<Rightarrow> (nat \<times> nat \<times> nat) set" where
  "windings tris = (\<Union>(a, b, c)\<in>set (triangle_list tris). {(a, b, c), (b, c, a), (c, a, b)})"

definition reverse_winding :: "nat \<times> nat \<times> nat \<Rightarrow> nat \<times> nat \<times> nat" where
  "reverse_winding t = (case t of (a, b, c) \<Rightarrow> (c, b, a))"

definition tet_edges :: "tvtx list \<Rightarrow> nat list" where
  "tet_edges c = (case process_tetrahedron c [] of None \<Rightarrow> [] | Some (brk, tv, es) \<Rightarrow> es)"

definition mirror_lists :: "nat list \<Rightarrow> nat list \<Rightarrow> bool" where
  "mirror_lists es es' =
     (windings es' = reverse_winding ` windings es
      \<and> oriented_edges es' = (\<lambda>e. (snd e, fst e)) ` oriented_edges es
      \<and> set es' = set es
      \<and> length es' = length es)"

definition mirrored :: "tvtx list \<Rightarrow> bool" where
  "mirrored c = mirror_lists (tet_edges c) (tet_edges (flip_outside c))"

lemma all_mirrored: "list_all mirrored configurations"
  by code_simp

lemma tetrahedron_edges:
  assumes "j < NUM_TETRAHEDRA"
  shows "\<exists>tv. tetrahedron_triangles i j tr = Some (True, tv, tr @ tet_edges (classify i j))"
    and "3 dvd length (tet_edges (classify i j))"
proof -
  let ?c = "classify i j"
  from tetrahedron_outcome [OF assms, of i]
  obtain tv es where run: "process_tetrahedron ?c [] = Some (True, tv, es)"
    and shape: "es = [] \<or> one_triangle tv = Some es \<or> two_triangles tv = Some es"
    unfolding canonical_outcome_def by (auto split: option.splits if_splits)
  have es: "tet_edges ?c = es"
    by (simp add: tet_edges_def run)
  have "tetrahedron_triangles i j tr = Some (True, tv, tr @ es)"
    unfolding tetrahedron_triangles_def
    by (subst process_tetrahedron_append) (simp add: run)
  then show "\<exists>tv. tetrahedron_triangles i j tr = Some (True, tv, tr @ tet_edges ?c)"
    by (simp add: es)
  show "3 dvd length (tet_edges ?c)"
    using shape one_triangle_edges [of tv es] two_triangles_edges [of tv es] by (auto simp: es)
qed

lemma tetrahedra_loop_concat:
  assumes "\<forall>j\<in>set js. j < NUM_TETRAHEDRA"
  shows "tetrahedra_loop i js tr = Some (tr @ concat (map (\<lambda>j. tet_edges (classify i j)) js))"
  using assms
proof (induction js arbitrary: tr)
  case Nil
  then show ?case by simp
next
  case (Cons j js)
  then have "j < NUM_TETRAHEDRA" by simp
  from tetrahedron_edges(1) [OF this, of i tr]
  obtain tv where "tetrahedron_triangles i j tr = Some (True, tv, tr @ tet_edges (classify i j))"
    by blast
  with Cons show ?case
    by simp
qed

lemma tris_of_concat:
  "tris_of i = concat (map (\<lambda>j. tet_edges (classify i j)) [0..<NUM_TETRAHEDRA])"
  by (simp add: tris_of_def cube_triangles_def tetrahedra_loop_concat)

lemma not_dvd_small: "\<not> 3 dvd Suc 0" "\<not> 3 dvd Suc (Suc 0)"
  by presburger+

lemma triangle_list_append:
  "3 dvd length xs \<Longrightarrow> triangle_list (xs @ ys) = triangle_list xs @ triangle_list ys"
proof (induction xs rule: triangle_list.induct)
  case (1 a b c rest)
  from "1.prems" have "3 dvd length rest"
    by (simp, presburger)
  with "1.IH" show ?case by simp
qed (simp_all add: not_dvd_small)

lemma triangle_list_concat:
  "\<forall>xs\<in>set xss. 3 dvd length xs \<Longrightarrow>
   triangle_list (concat xss) = concat (map triangle_list xss)"
  by (induction xss) (simp_all add: triangle_list_append)

lemma triangle_list_map:
  "triangle_list (map f xs) = map (\<lambda>t. (f (fst t), f (fst (snd t)), f (snd (snd t)))) (triangle_list xs)"
  by (induction xs rule: triangle_list.induct) simp_all

lemma windings_concat:
  "\<forall>xs\<in>set xss. 3 dvd length xs \<Longrightarrow> windings (concat xss) = (\<Union>xs\<in>set xss. windings xs)"
  by (auto simp: windings_def triangle_list_concat)

lemma oriented_edges_concat:
  "\<forall>xs\<in>set xss. 3 dvd length xs \<Longrightarrow>
   oriented_edges (concat xss) = (\<Union>xs\<in>set xss. oriented_edges xs)"
  by (auto simp: oriented_edges_def triangle_list_concat)

lemma windings_map:
  "windings (map f xs) = (\<lambda>t. (f (fst t), f (fst (snd t)), f (snd (snd t)))) ` windings xs"
  by (auto simp: windings_def triangle_list_map image_iff) force+

lemma oriented_edges_map:
  "oriented_edges (map f xs) = (\<lambda>e. (f (fst e), f (snd e))) ` oriented_edges xs"
  by (auto simp: oriented_edges_def triangle_list_map image_iff) force+

lemma tetrahedron_vertices_small:
  "j < NUM_TETRAHEDRA \<Longrightarrow> \<forall>v\<in>set (tetrahedronIndices ! j). v < 8"
proof -
  assume "j < NUM_TETRAHEDRA"
  then have "j < length tetrahedronIndices"
    by (simp add: NUM_TETRAHEDRA_def tetrahedronIndices_def)
  then have "tetrahedronIndices ! j \<in> set tetrahedronIndices"
    by (rule nth_mem)
  then show ?thesis
    by (auto simp: tetrahedronIndices_def)
qed

lemma classify_complement:
  assumes "i < NUM_CUBES" and "j < NUM_TETRAHEDRA"
  shows "classify (255 - i) j = flip_outside (classify i j)"
proof -
  from assms(1) have i: "i < 256"
    by (simp add: NUM_CUBES_def)
  show ?thesis
    unfolding classify_def flip_outside_def map_map
    by (rule map_cong [OF refl])
       (use tetrahedron_vertices_small [OF assms(2)] in \<open>simp add: bit_complement [OF i]\<close>)
qed

lemma tetrahedron_mirrored:
  assumes "i < NUM_CUBES" and "j < NUM_TETRAHEDRA"
  shows "mirror_lists (tet_edges (classify i j)) (tet_edges (classify (255 - i) j))"
proof -
  from all_mirrored classify_configuration [OF assms(2), of i]
  have "mirrored (classify i j)"
    by (simp add: list_all_iff)
  then show ?thesis
    by (simp add: mirrored_def classify_complement [OF assms])
qed

lemma cube_mirrored:
  assumes "i < NUM_CUBES"
  shows "windings (tris_of (255 - i)) = reverse_winding ` windings (tris_of i)"
    and "oriented_edges (tris_of (255 - i)) = (\<lambda>e. (snd e, fst e)) ` oriented_edges (tris_of i)"
    and "set (tris_of (255 - i)) = set (tris_of i)"
    and "length (tris_of (255 - i)) = length (tris_of i)"
proof -
  let ?e = "\<lambda>i j. tet_edges (classify i j)"
  let ?js = "[0..<NUM_TETRAHEDRA]"
  have m: "mirror_lists (?e i j) (?e (255 - i) j)" if "j \<in> set ?js" for j
    using that tetrahedron_mirrored [OF assms, of j] by simp
  have d: "\<forall>xs\<in>set (map (?e k) ?js). 3 dvd length xs" for k
    using tetrahedron_edges(2) by auto
  have "windings (tris_of (255 - i)) = (\<Union>j\<in>set ?js. windings (?e (255 - i) j))"
    by (simp add: tris_of_concat windings_concat [OF d])
  also have "\<dots> = (\<Union>j\<in>set ?js. reverse_winding ` windings (?e i j))"
    using m by (simp add: mirror_lists_def)
  also have "\<dots> = reverse_winding ` windings (tris_of i)"
    by (simp add: tris_of_concat windings_concat [OF d] image_UN)
  finally show "windings (tris_of (255 - i)) = reverse_winding ` windings (tris_of i)" .
  have "oriented_edges (tris_of (255 - i)) = (\<Union>j\<in>set ?js. oriented_edges (?e (255 - i) j))"
    by (simp add: tris_of_concat oriented_edges_concat [OF d])
  also have "\<dots> = (\<Union>j\<in>set ?js. (\<lambda>e. (snd e, fst e)) ` oriented_edges (?e i j))"
    using m by (simp add: mirror_lists_def)
  also have "\<dots> = (\<lambda>e. (snd e, fst e)) ` oriented_edges (tris_of i)"
    by (simp add: tris_of_concat oriented_edges_concat [OF d] image_UN)
  finally show "oriented_edges (tris_of (255 - i)) = (\<lambda>e. (snd e, fst e)) ` oriented_edges (tris_of i)" .
  have "set (tris_of (255 - i)) = (\<Union>j\<in>set ?js. set (?e (255 - i) j))"
    by (simp add: tris_of_concat)
  also have "\<dots> = (\<Union>j\<in>set ?js. set (?e i j))"
    using m by (simp add: mirror_lists_def)
  also have "\<dots> = set (tris_of i)"
    by (simp add: tris_of_concat)
  finally show "set (tris_of (255 - i)) = set (tris_of i)" .
  have eq: "map (\<lambda>j. length (?e (255 - i) j)) ?js = map (\<lambda>j. length (?e i j)) ?js"
    using m by (simp add: mirror_lists_def)
  have len: "length (tris_of k) = sum_list (map (\<lambda>j. length (?e k j)) ?js)" for k
    by (simp add: tris_of_concat length_concat comp_def)
  show "length (tris_of (255 - i)) = length (tris_of i)"
    by (simp only: len eq)
qed

lemma case_vertices_cong: "set tris' = set tris \<Longrightarrow> case_vertices tris' = case_vertices tris"
  by (simp add: case_vertices_def)

lemma compact_index_cong: "set tris' = set tris \<Longrightarrow> compact_index tris' = compact_index tris"
  by (simp add: compact_index_def fun_eq_iff)

text \<open>
  Claim C3. For every cube case \<open>i\<close> below 256 and its complement \<open>255 - i\<close>: the count rows are
  equal, the vertex lists (the edge indices of the vertices) are equal, and the triangles
  of the complement are the triangles of \<open>i\<close> with the winding reversed: as sets of
  triangles up to rotation, and as sets of oriented edges, both for the index lists of the
  tables and for the triangles written with edge numbers.
\<close>

theorem complementary_cases_mirrored:
  assumes "i < NUM_CUBES"
  shows "\<exists>T. makeTables = Some T
           \<and> hCountTable T ! (255 - i) = hCountTable T ! i
           \<and> table_vertices T (255 - i) = table_vertices T i
           \<and> windings (table_indices T (255 - i)) = reverse_winding ` windings (table_indices T i)
           \<and> oriented_edges (table_indices T (255 - i))
               = (\<lambda>e. (snd e, fst e)) ` oriented_edges (table_indices T i)
           \<and> windings (tris_of (255 - i)) = reverse_winding ` windings (tris_of i)
           \<and> oriented_edges (tris_of (255 - i)) = (\<lambda>e. (snd e, fst e)) ` oriented_edges (tris_of i)"
proof -
  let ?i' = "255 - i"
  from assms have i': "?i' < NUM_CUBES"
    by (simp add: NUM_CUBES_def)
  note m = cube_mirrored [OF assms]
  have v: "case_vertices (tris_of ?i') = case_vertices (tris_of i)"
    by (rule case_vertices_cong [OF m(3)])
  have x: "case_indices (tris_of ?i') = map (compact_index (tris_of i)) (tris_of ?i')"
    by (simp add: case_indices_def compact_index_cong [OF m(3)])
  let ?F = "\<lambda>t. (compact_index (tris_of i) (fst t), compact_index (tris_of i) (fst (snd t)),
                  compact_index (tris_of i) (snd (snd t)))"
  have w: "windings (case_indices (tris_of ?i')) = reverse_winding ` windings (case_indices (tris_of i))"
  proof -
    have "windings (case_indices (tris_of ?i')) = ?F ` reverse_winding ` windings (tris_of i)"
      by (simp add: x windings_map m(1))
    also have "\<dots> = reverse_winding ` ?F ` windings (tris_of i)"
      by (simp add: image_image reverse_winding_def split_beta)
    also have "\<dots> = reverse_winding ` windings (case_indices (tris_of i))"
      by (simp add: case_indices_def windings_map)
    finally show ?thesis .
  qed
  have o: "oriented_edges (case_indices (tris_of ?i'))
            = (\<lambda>e. (snd e, fst e)) ` oriented_edges (case_indices (tris_of i))"
  proof -
    have "oriented_edges (case_indices (tris_of ?i'))
            = (\<lambda>e. (compact_index (tris_of i) (fst e), compact_index (tris_of i) (snd e)))
                ` (\<lambda>e. (snd e, fst e)) ` oriented_edges (tris_of i)"
      by (simp add: x oriented_edges_map m(2))
    also have "\<dots> = (\<lambda>e. (snd e, fst e))
                ` (\<lambda>e. (compact_index (tris_of i) (fst e), compact_index (tris_of i) (snd e)))
                ` oriented_edges (tris_of i)"
      by (simp add: image_image)
    also have "\<dots> = (\<lambda>e. (snd e, fst e)) ` oriented_edges (case_indices (tris_of i))"
      by (simp add: case_indices_def oriented_edges_map)
    finally show ?thesis .
  qed
  have c: "hCountTable final_tables ! ?i' = hCountTable final_tables ! i"
    by (simp add: final_count [OF assms] final_count [OF i'] v case_indices_def m(4))
  show ?thesis
    using makeTables_eq c v w o m(1,2)
    by (intro exI [of _ final_tables]) (simp add: table_rows [OF assms] table_rows [OF i'])
qed

theorem complementary_cases_mirrored_witness:
  "(1::nat) < NUM_CUBES
     \<and> hCountTable (the makeTables) ! 254 = hCountTable (the makeTables) ! 1
     \<and> table_vertices (the makeTables) 254 = table_vertices (the makeTables) 1
     \<and> windings (table_indices (the makeTables) 254)
         = reverse_winding ` windings (table_indices (the makeTables) 1)"
proof -
  have h: "(1::nat) < NUM_CUBES"
    by (simp add: NUM_CUBES_def)
  from complementary_cases_mirrored [OF h] obtain T
    where all: "makeTables = Some T
           \<and> hCountTable T ! (255 - 1) = hCountTable T ! 1
           \<and> table_vertices T (255 - 1) = table_vertices T 1
           \<and> windings (table_indices T (255 - 1)) = reverse_winding ` windings (table_indices T 1)
           \<and> oriented_edges (table_indices T (255 - 1))
               = (\<lambda>e. (snd e, fst e)) ` oriented_edges (table_indices T 1)
           \<and> windings (tris_of (255 - 1)) = reverse_winding ` windings (tris_of 1)
           \<and> oriented_edges (tris_of (255 - 1)) = (\<lambda>e. (snd e, fst e)) ` oriented_edges (tris_of 1)"
    ..
  from all have T: "makeTables = Some T"
    by (rule conjunct1)
  have tm: "the makeTables = T"
    unfolding T by simp
  from all have c: "hCountTable T ! 254 = hCountTable T ! 1"
    and v: "table_vertices T 254 = table_vertices T 1"
    and w: "windings (table_indices T 254) = reverse_winding ` windings (table_indices T 1)"
    by simp_all
  show ?thesis
    unfolding tm using h c v w by (intro conjI)
qed

section \<open>Runs of the layer driver\<close>

text \<open>A small engine and two device behaviours, for concrete runs.\<close>

definition small_engine :: marching where
  "small_engine = \<lparr>maxWidth = 2, maxHeight = 2, vertexSpace = 13, indexSpace = 36\<rparr>"

definition full_layers :: "nat \<Rightarrow> layer" where
  "full_layers z = \<lparr>compacted = 1, counts = (13, 36)\<rparr>"

definition empty_layers :: "nat \<Rightarrow> layer" where
  "empty_layers z = \<lparr>compacted = 0, counts = (0, 0)\<rparr>"

lemma generate_loop_done:
  "\<not> z < depth \<Longrightarrow> generate_loop B m ko layers depth z st = Inr st"
  by (simp add: generate_loop.simps)

lemma generate_loop_step:
  "z < depth \<Longrightarrow>
   generate_loop B m ko layers depth z st =
     (case layer_step B m ko layers z st of
        Inl e \<Rightarrow> Inl e
      | Inr st' \<Rightarrow> generate_loop B m ko layers depth (z + 1) st')"
  by (subst generate_loop.simps) simp


lemma layer_step_error:
  "layer_step B m ko layers z st = Inl e \<Longrightarrow> e = AssertionFailed"
  by (auto simp: layer_step_def Let_def split: if_splits)

lemma generate_loop_error:
  "generate_loop B m ko layers depth z st = Inl e \<Longrightarrow> e = AssertionFailed"
proof (induction "depth - z" arbitrary: z st)
  case 0
  then show ?case
    by (simp add: generate_loop_done)
next
  case (Suc n)
  then have lt: "z < depth"
    by simp
  show ?case
  proof (cases "layer_step B m ko layers z st")
    case (Inl e')
    with Suc.prems lt show ?thesis
      by (auto simp: generate_loop_step dest: layer_step_error)
  next
    case (Inr st1)
    with Suc.prems lt have "generate_loop B m ko layers depth (z + 1) st1 = Inl e"
      by (simp add: generate_loop_step)
    moreover have "n = depth - (z + 1)"
      using Suc.hyps(2) by simp
    ultimately show ?thesis
      using Suc.hyps(1) [of "z + 1" st1] by simp
  qed
qed

lemma generate_loop_empty_layers:
  "\<forall>z'. z \<le> z' \<and> z' < depth \<longrightarrow> compacted (layers z') = 0 \<Longrightarrow>
   generate_loop B m ko layers depth z st = Inr (st\<lparr>events := events st @ map Input [z..<depth]\<rparr>)"
proof (induction "depth - z" arbitrary: z st)
  case 0
  then show ?case
    by (simp add: generate_loop_done)
next
  case (Suc n)
  then have lt: "z < depth"
    by simp
  with Suc.prems have "compacted (layers z) = 0"
    by simp
  then have s: "layer_step B m ko layers z st = Inr (st\<lparr>events := events st @ [Input z]\<rparr>)"
    by (simp add: layer_step_def)
  have n: "n = depth - (z + 1)"
    using Suc.hyps(2) by simp
  have "generate_loop B m ko layers depth (z + 1) (st\<lparr>events := events st @ [Input z]\<rparr>)
        = Inr (st\<lparr>events := events st @ [Input z]\<rparr>
                \<lparr>events := events (st\<lparr>events := events st @ [Input z]\<rparr>) @ map Input [z + 1..<depth]\<rparr>)"
    using Suc.prems by (intro Suc.hyps(1) [OF n]) simp
  then show ?case
    using lt s by (simp add: generate_loop_step upt_conv_Cons)
qed

lemma generate_valid:
  assumes "1 \<le> W" "W \<le> maxWidth m" "1 \<le> H" "H \<le> maxHeight m" "1 \<le> D"
  shows "generate B m layers (W, H, D) ko =
     (case generate_loop B m ko layers D 1 (initial_state W H) of
        Inl e \<Rightarrow> Inl e
      | Inr st \<Rightarrow> Inr (final_shipOut B ko D st))"
  using assms by (simp add: generate_def)

text \<open>
  Claim C9. With valid width and height and \<open>D = 1\<close> the body of the loop never runs and
  \<open>generate\<close> returns with slice 0 read and no ship-out. When every layer reports no
  compacted cell, \<open>generate\<close> returns with only the slices read and no ship-out. In general
  the output functor is invoked after the loop exactly when \<open>offsets.s0\<close> is positive
  there.
\<close>

theorem generate_without_layers_ships_nothing:
  "(1 \<le> W \<and> W \<le> maxWidth m \<and> 1 \<le> H \<and> H \<le> maxHeight m \<longrightarrow>
      generate_loop B m ko layers 1 1 (initial_state W H) = Inr (initial_state W H)
    \<and> generate B m layers (W, H, 1) ko = Inr (initial_state W H)
    \<and> events (initial_state W H) = [Input 0] \<and> shipOuts (initial_state W H) = 0)
   \<and> (1 \<le> W \<and> W \<le> maxWidth m \<and> 1 \<le> H \<and> H \<le> maxHeight m \<and> 1 \<le> D
        \<and> (\<forall>z. 1 \<le> z \<and> z < D \<longrightarrow> compacted (layers z) = 0) \<longrightarrow>
      generate B m layers (W, H, D) ko
        = Inr ((initial_state W H)\<lparr>events := map Input [0..<D]\<rparr>))
   \<and> (1 \<le> W \<and> W \<le> maxWidth m \<and> 1 \<le> H \<and> H \<le> maxHeight m \<and> 1 \<le> D
        \<and> generate_loop B m ko layers D 1 (initial_state W H) = Inr st \<longrightarrow>
      generate B m layers (W, H, D) ko = Inr (final_shipOut B ko D st)
    \<and> events (final_shipOut B ko D st)
        = events st @ (if 0 < fst (offsets st)
                       then [Output (shipOut B ko (offsets st) (of_nat (D - 1)))] else [])
    \<and> shipOuts (final_shipOut B ko D st)
        = shipOuts st + (if 0 < fst (offsets st) then 1 else 0))"
proof (intro conjI impI)
  assume v: "1 \<le> W \<and> W \<le> maxWidth m \<and> 1 \<le> H \<and> H \<le> maxHeight m"
  show l: "generate_loop B m ko layers 1 1 (initial_state W H) = Inr (initial_state W H)"
    by (simp add: generate_loop_done)
  have f: "final_shipOut B ko 1 (initial_state W H) = initial_state W H"
    by (simp add: final_shipOut_def initial_state_def)
  have "generate B m layers (W, H, 1) ko =
     (case generate_loop B m ko layers 1 1 (initial_state W H) of
        Inl e \<Rightarrow> Inl e
      | Inr st \<Rightarrow> Inr (final_shipOut B ko 1 st))"
    using v by (intro generate_valid) simp_all
  also have "\<dots> = Inr (final_shipOut B ko 1 (initial_state W H))"
    by (simp only: l sum.case)
  finally show "generate B m layers (W, H, 1) ko = Inr (initial_state W H)"
    by (simp only: f)
  show "events (initial_state W H) = [Input 0]" and "shipOuts (initial_state W H) = 0"
    by (simp_all add: initial_state_def)
next
  assume a: "1 \<le> W \<and> W \<le> maxWidth m \<and> 1 \<le> H \<and> H \<le> maxHeight m \<and> 1 \<le> D
        \<and> (\<forall>z. 1 \<le> z \<and> z < D \<longrightarrow> compacted (layers z) = 0)"
  then have e: "\<forall>z'. 1 \<le> z' \<and> z' < D \<longrightarrow> compacted (layers z') = 0"
    by simp
  have u: "[0..<D] = 0 # [1..<D]"
    using a by (simp add: upt_conv_Cons)
  have g: "generate_loop B m ko layers D 1 (initial_state W H)
        = Inr ((initial_state W H)\<lparr>events := map Input [0..<D]\<rparr>)"
    unfolding generate_loop_empty_layers [OF e] u by (simp add: initial_state_def)
  have f: "final_shipOut B ko D ((initial_state W H)\<lparr>events := map Input [0..<D]\<rparr>)
        = (initial_state W H)\<lparr>events := map Input [0..<D]\<rparr>"
    by (simp add: final_shipOut_def initial_state_def)
  have "generate B m layers (W, H, D) ko =
     (case generate_loop B m ko layers D 1 (initial_state W H) of
        Inl e \<Rightarrow> Inl e
      | Inr st \<Rightarrow> Inr (final_shipOut B ko D st))"
    using a by (intro generate_valid) simp_all
  also have "\<dots> = Inr (final_shipOut B ko D ((initial_state W H)\<lparr>events := map Input [0..<D]\<rparr>))"
    by (simp only: g sum.case)
  finally show "generate B m layers (W, H, D) ko
        = Inr ((initial_state W H)\<lparr>events := map Input [0..<D]\<rparr>)"
    by (simp only: f)
next
  assume a: "1 \<le> W \<and> W \<le> maxWidth m \<and> 1 \<le> H \<and> H \<le> maxHeight m \<and> 1 \<le> D
        \<and> generate_loop B m ko layers D 1 (initial_state W H) = Inr st"
  then show "generate B m layers (W, H, D) ko = Inr (final_shipOut B ko D st)"
    by (simp add: generate_valid)
  show "events (final_shipOut B ko D st)
        = events st @ (if 0 < fst (offsets st)
                       then [Output (shipOut B ko (offsets st) (of_nat (D - 1)))] else [])"
    by (simp add: final_shipOut_def)
  show "shipOuts (final_shipOut B ko D st)
        = shipOuts st + (if 0 < fst (offsets st) then 1 else 0)"
    by (simp add: final_shipOut_def)
qed






lemma generate_length_error:
  "(generate B m layers (W, H, D) ko = Inl LengthError)
     = (\<not> (1 \<le> W \<and> W \<le> maxWidth m \<and> 1 \<le> H \<and> H \<le> maxHeight m \<and> 1 \<le> D))"
  "generate B m layers (W, H, D) ko \<noteq> Inl InvalidArgument"
  by (auto simp: generate_def Let_def split: sum.splits dest: generate_loop_error)






theorem generate_without_layers_ships_nothing_witness:
  "generate 21 small_engine
       full_layers (2, 2, 1) (0, 0, 0)
     = Inr (initial_state 2 2)
   \<and> events (initial_state 2 2) = [Input 0]
   \<and> shipOuts (initial_state 2 2) = 0"
proof -
  let ?m = "small_engine"
  have v: "1 \<le> (2::nat) \<and> 2 \<le> maxWidth ?m \<and> 1 \<le> (2::nat) \<and> 2 \<le> maxHeight ?m"
    by (simp add: small_engine_def)
  from generate_without_layers_ships_nothing [of 2 ?m 2 21 "(0, 0, 0)" full_layers]
  have "1 \<le> (2::nat) \<and> 2 \<le> maxWidth ?m \<and> 1 \<le> (2::nat) \<and> 2 \<le> maxHeight ?m \<longrightarrow>
      generate_loop 21 ?m (0, 0, 0) full_layers 1 1 (initial_state 2 2)
        = Inr (initial_state 2 2)
    \<and> generate 21 ?m full_layers (2, 2, 1) (0, 0, 0)
        = Inr (initial_state 2 2)
    \<and> events (initial_state 2 2) = [Input 0] \<and> shipOuts (initial_state 2 2) = 0"
    by (rule conjunct1)
  with v show ?thesis
    by blast
qed



text \<open>
  Claim C5 as the specification states it fails: a width of 1 is below 2, and \<open>generate\<close>
  returns without throwing.
\<close>

theorem generate_width_one_counterexample:
  "\<not> (2 \<le> (1::nat))
   \<and> generate 21 small_engine
       empty_layers (1, 2, 1) (0, 0, 0)
     = Inr \<lparr>offsets = (0, 0), top = (0, 2, 0), events = [Input 0], shipOuts = 0\<rparr>"
  by code_simp

section \<open>Whole triangles\<close>




section \<open>Dimension checks and allocations\<close>

text \<open>An instance of the header's constants, for concrete runs.\<close>

definition example_constants :: constants where
  "example_constants = \<lparr>MAX_DIMENSION = 8192, MAX_CELL_VERTICES = 13, MAX_CELL_INDICES = 36\<rparr>"

lemma Marching_throws:
  "(Marching k maxW maxH = Inl InvalidArgument)
     = (\<not> (2 \<le> maxW \<and> maxW \<le> MAX_DIMENSION k \<and> 2 \<le> maxH \<and> maxH \<le> MAX_DIMENSION k))"
  "(\<exists>e. Marching k maxW maxH = Inl e)
     = (\<not> (2 \<le> maxW \<and> maxW \<le> MAX_DIMENSION k \<and> 2 \<le> maxH \<and> maxH \<le> MAX_DIMENSION k))"
  by (auto simp: Marching_def makeTables_eq Let_def)

text \<open>
  Claim C5, amended. \<open>generate\<close> throws, before slice 0 is read, exactly when
  \<open>1 \<le> W \<le> maxWidth\<close>, \<open>1 \<le> H \<le> maxHeight\<close>, \<open>1 \<le> D\<close> is violated, and what it throws is a
  length error, never an invalid-argument error. The constructor throws exactly when
  \<open>maxWidth\<close> or \<open>maxHeight\<close> is below 2 or above \<open>MAX_DIMENSION\<close>, and then an
  invalid-argument error.
\<close>

theorem dimension_checks_throw:
  "(generate B m layers (W, H, D) ko = Inl LengthError)
     = (\<not> (1 \<le> W \<and> W \<le> maxWidth m \<and> 1 \<le> H \<and> H \<le> maxHeight m \<and> 1 \<le> D))
   \<and> generate B m layers (W, H, D) ko \<noteq> Inl InvalidArgument
   \<and> (Marching k maxW maxH = Inl InvalidArgument)
     = (\<not> (2 \<le> maxW \<and> maxW \<le> MAX_DIMENSION k \<and> 2 \<le> maxH \<and> maxH \<le> MAX_DIMENSION k))
   \<and> (\<exists>e. Marching k maxW maxH = Inl e)
     = (\<not> (2 \<le> maxW \<and> maxW \<le> MAX_DIMENSION k \<and> 2 \<le> maxH \<and> maxH \<le> MAX_DIMENSION k))"
  using generate_length_error [of B m layers W H D ko] Marching_throws [of k maxW maxH]
  by (intro conjI)

lemma table_buffers_final:
  "table_buffers final_tables =
     [Buffer 512, Buffer 1028,
      Buffer (of_nat (length (hVertexTable final_tables))),
      Buffer (of_nat (length (hKeyTable final_tables)) * 16)]"
  by (simp add: table_buffers_def) (simp add: final_tables_def NUM_CUBES_def)

lemma index_space_agrees:
  assumes "3 dvd MAX_CELL_INDICES k"
  shows "getMaxTriangles k maxW maxH * 3 = (maxW - 1) * (maxH - 1) * of_nat (MAX_CELL_INDICES k)"
proof -
  from assms obtain q where q: "MAX_CELL_INDICES k = 3 * q"
    by (auto simp: dvd_def)
  show ?thesis
    by (simp add: getMaxTriangles_def q)
qed

text \<open>
  Claim C6. For every valid pair of maximal dimensions (and a \<open>MAX_CELL_INDICES\<close> that is
  a multiple of 3), the constructor allocates the four table buffers of \<open>makeTables\<close> and
  then exactly the two images and thirteen buffers that \<open>resourceUsage\<close> announces, with
  the same sizes: \<open>resourceUsage\<close> leaves the four table buffers out, so it does not
  account for every buffer.
\<close>

theorem resourceUsage_omits_table_buffers:
  assumes "2 \<le> maxW" "maxW \<le> MAX_DIMENSION k" "2 \<le> maxH" "maxH \<le> MAX_DIMENSION k"
    and "3 dvd MAX_CELL_INDICES k"
  shows "\<exists>m accounted. resourceUsage k maxW maxH = Inr accounted
           \<and> Marching k maxW maxH =
               Inr (m, [Buffer 512, Buffer 1028,
                        Buffer (of_nat (length (hVertexTable (the makeTables)))),
                        Buffer (of_nat (length (hKeyTable (the makeTables))) * 16)] @ accounted)
           \<and> length accounted = 15"
  using assms
  by (simp add: resourceUsage_def Marching_def makeTables_eq Let_def table_buffers_final
        index_space_agrees getMaxVertices_def engine_buffers_def)

theorem dimension_checks_throw_witness:
  "generate 21 small_engine empty_layers (3, 2, 1) (0, 0, 0) = Inl LengthError
   \<and> Marching example_constants 1 2 = Inl InvalidArgument"
proof -
  note t = dimension_checks_throw [of 21 small_engine empty_layers 3 2 1 "(0, 0, 0)" example_constants 1 2]
  from t have "(generate 21 small_engine empty_layers (3, 2, 1) (0, 0, 0) = Inl LengthError)
     = (\<not> (1 \<le> (3::nat) \<and> 3 \<le> maxWidth small_engine \<and> 1 \<le> (2::nat) \<and> 2 \<le> maxHeight small_engine
            \<and> 1 \<le> (1::nat)))"
    by (rule conjunct1)
  then have g: "generate 21 small_engine empty_layers (3, 2, 1) (0, 0, 0) = Inl LengthError"
    by (simp add: small_engine_def)
  from t have "(Marching example_constants 1 2 = Inl InvalidArgument)
     = (\<not> (2 \<le> (1::size_t) \<and> 1 \<le> MAX_DIMENSION example_constants
            \<and> 2 \<le> (2::size_t) \<and> 2 \<le> MAX_DIMENSION example_constants))"
    by simp
  moreover have "\<not> (2 \<le> (1::size_t) \<and> 1 \<le> MAX_DIMENSION example_constants
            \<and> 2 \<le> (2::size_t) \<and> 2 \<le> MAX_DIMENSION example_constants)"
    by (simp add: word_le_nat_alt)
  ultimately have "Marching example_constants 1 2 = Inl InvalidArgument"
    by (rule iffD2)
  with g show ?thesis
    by (rule conjI)
qed

theorem resourceUsage_omits_table_buffers_witness:
  "\<exists>m accounted. resourceUsage example_constants 2 2 = Inr accounted
           \<and> Marching example_constants 2 2 =
               Inr (m, [Buffer 512, Buffer 1028,
                        Buffer (of_nat (length (hVertexTable (the makeTables)))),
                        Buffer (of_nat (length (hKeyTable (the makeTables))) * 16)] @ accounted)
           \<and> length accounted = 15"
proof -
  have "(2::size_t) \<le> 2" and "(2::size_t) \<le> MAX_DIMENSION example_constants"
    and "3 dvd MAX_CELL_INDICES example_constants"
    by (simp_all add: example_constants_def)
  then show ?thesis
    by (intro resourceUsage_omits_table_buffers)
qed

end
